theory Spec2Isabelle
  imports Main "HOL-Library.Word"
begin

section \<open>The queue of \<open>queue.hpp\<close>: memory model\<close>

text \<open>
  \<open>Queue<T>\<close> keeps three members: a pointer \<open>m_Container\<close> to a buffer obtained from
  \<open>::operator new\<close>, and two \<open>std::size_t\<close> counters \<open>m_Size\<close> and \<open>m_Capacity\<close>.
  \<open>std::size_t\<close> is modelled as a 64-bit word, so \<open>m_Capacity * 2\<close>, \<open>++m_Size\<close>,
  \<open>--m_Size\<close> and \<open>m_Size - 1\<close> wrap as they do in the program.

  Queue objects are kept in a store indexed by the address of the object, so that
  \<open>this == &other\<close> is an equality of addresses. Buffers live in a free store of blocks;
  a pointer is the number of a block. A block is a list of slots, one for each element
  of type \<open>T\<close> that was requested: \<open>Raw\<close> is storage without an object, \<open>Live v\<close> an
  object with value \<open>v\<close>, \<open>MovedFrom\<close> an object that \<open>std::move\<close> has emptied (alive,
  to be destroyed, with a value nobody may rely on).

  The free store is measured in elements: the factor \<open>sizeof(T)\<close> of every request is
  left out, and \<open>::operator new\<close> always succeeds (\<open>std::bad_alloc\<close> is no part of the
  model). Copying a \<open>T\<close> yields an equal value and does not throw.
\<close>

type_synonym SizeType = "64 word"
type_synonym addr = nat

datatype 'a slot = Raw | Live 'a | MovedFrom

record queue =
  m_Container :: addr
  m_Size :: SizeType
  m_Capacity :: SizeType

record 'a state =
  objects :: "addr \<rightharpoonup> queue"
  store :: "'a slot list option list"

datatype exn = invalid_argument

text \<open>
  A member function returns normally, leaves by an exception (with the state at the
  \<open>throw\<close>), or has undefined behaviour: an access through a pointer that is no block, an
  index outside the block, a read of a slot that holds no value, the destruction of raw
  storage, a sized \<open>operator delete\<close> with the wrong size.
\<close>

datatype 'a outcome = Normal "'a state" | Throws exn "'a state" | Undefined

definition and_then :: "'a outcome \<Rightarrow> ('a state \<Rightarrow> 'a outcome) \<Rightarrow> 'a outcome" where
  "and_then r f = (case r of Normal s \<Rightarrow> f s | Throws e s \<Rightarrow> Throws e s | Undefined \<Rightarrow> Undefined)"

definition block :: "'a state \<Rightarrow> addr \<Rightarrow> 'a slot list option" where
  "block s p = (if p < length (store s) then store s ! p else None)"

definition set_block :: "addr \<Rightarrow> 'a slot list option \<Rightarrow> 'a state \<Rightarrow> 'a state" where
  "set_block p b s = s\<lparr>store := (store s)[p := b]\<rparr>"

definition update_object :: "addr \<Rightarrow> (queue \<Rightarrow> queue) \<Rightarrow> 'a state \<Rightarrow> 'a state" where
  "update_object this f s = s\<lparr>objects := (objects s)(this := map_option f (objects s this))\<rparr>"

text \<open>\<open>(T*) ::operator new(n * sizeof(T))\<close>: a new block of \<open>n\<close> raw slots. The product
  \<open>n * sizeof(T)\<close> is taken as it is in the integers: that it wraps in \<open>std::size_t\<close> for
  large \<open>n\<close> is no part of the model.\<close>

definition operator_new :: "nat \<Rightarrow> 'a state \<Rightarrow> addr \<times> 'a state" where
  "operator_new n s = (length (store s), s\<lparr>store := store s @ [Some (replicate n Raw)]\<rparr>)"

text \<open>\<open>::operator delete(p, n * sizeof(T))\<close>: the sized form, which must be given the size
  of the request that returned \<open>p\<close>.\<close>

definition operator_delete :: "addr \<Rightarrow> nat \<Rightarrow> 'a state \<Rightarrow> 'a outcome" where
  "operator_delete p n s =
     (case block s p of
        None \<Rightarrow> Undefined
      | Some b \<Rightarrow> if length b = n then Normal (set_block p None s) else Undefined)"

text \<open>\<open>new (&p[i]) T(v)\<close>: placement construction in slot \<open>i\<close> of block \<open>p\<close>. Whatever
  the slot held is overwritten; no destructor runs.\<close>

definition construct_at :: "addr \<Rightarrow> nat \<Rightarrow> 'a \<Rightarrow> 'a state \<Rightarrow> 'a outcome" where
  "construct_at p i v s =
     (case block s p of
        None \<Rightarrow> Undefined
      | Some b \<Rightarrow> if i < length b then Normal (set_block p (Some (b[i := Live v])) s) else Undefined)"

text \<open>\<open>p[i].~T()\<close>: the object in the slot ends, the storage stays.\<close>

definition destroy_at :: "addr \<Rightarrow> nat \<Rightarrow> 'a state \<Rightarrow> 'a outcome" where
  "destroy_at p i s =
     (case block s p of
        None \<Rightarrow> Undefined
      | Some b \<Rightarrow>
          if i < length b \<and> b ! i \<noteq> Raw then Normal (set_block p (Some (b[i := Raw])) s)
          else Undefined)"

text \<open>The value of \<open>p[i]\<close>, as a copy constructor or a caller of \<open>Front\<close> reads it.\<close>

definition value_at :: "addr \<Rightarrow> nat \<Rightarrow> 'a state \<Rightarrow> 'a option" where
  "value_at p i s =
     (case block s p of
        None \<Rightarrow> None
      | Some b \<Rightarrow> if i < length b then (case b ! i of Live v \<Rightarrow> Some v | _ \<Rightarrow> None) else None)"

text \<open>\<open>new (&dst[i]) T(src[j])\<close>.\<close>

definition copy_construct :: "addr \<Rightarrow> nat \<Rightarrow> addr \<Rightarrow> nat \<Rightarrow> 'a state \<Rightarrow> 'a outcome" where
  "copy_construct dst i src j s =
     (case value_at src j s of None \<Rightarrow> Undefined | Some v \<Rightarrow> construct_at dst i v s)"

text \<open>\<open>new (&dst[i]) T(std::move(src[j]))\<close>: the source object stays alive, emptied.\<close>

definition move_construct :: "addr \<Rightarrow> nat \<Rightarrow> addr \<Rightarrow> nat \<Rightarrow> 'a state \<Rightarrow> 'a outcome" where
  "move_construct dst i src j s =
     (case value_at src j s of
        None \<Rightarrow> Undefined
      | Some v \<Rightarrow>
          (case block s src of
             None \<Rightarrow> Undefined
           | Some b \<Rightarrow> construct_at dst i v (set_block src (Some (b[j := MovedFrom])) s)))"

section \<open>The member functions\<close>

definition INITIAL_CAPACITY :: SizeType where
  "INITIAL_CAPACITY = 1"

text \<open>\<open>Queue()\<close>, constructing the object at address \<open>this\<close>.\<close>

definition Queue :: "addr \<Rightarrow> 'a state \<Rightarrow> 'a outcome" where
  "Queue this s =
     (let (p, s1) = operator_new (unat INITIAL_CAPACITY) s
      in Normal (s1\<lparr>objects := (objects s1)(this \<mapsto>
           \<lparr>m_Container = p, m_Size = 0, m_Capacity = INITIAL_CAPACITY\<rparr>)\<rparr>))"

text \<open>The loop \<open>for (i = 0; i < m_Size; ++i) new (&m_Container[i]) T(other.m_Container[i])\<close>
  of the copy constructor and of copy assignment, over the indices it visits. Here and in
  the other loops the counter stays below \<open>m_Size\<close>, so it does not wrap, and the loop is
  called with the indices \<open>[0..<unat m_Size]\<close>.\<close>

fun copy_loop :: "addr \<Rightarrow> addr \<Rightarrow> nat list \<Rightarrow> 'a state \<Rightarrow> 'a outcome" where
  "copy_loop dst src [] s = Normal s"
| "copy_loop dst src (i # js) s =
     and_then (copy_construct dst i src i s) (\<lambda>s1. copy_loop dst src js s1)"

text \<open>\<open>Queue(const Queue& other)\<close>. A queue is never constructed from itself (that would
  read its own members before they are initialised).\<close>

definition Queue_copy :: "addr \<Rightarrow> addr \<Rightarrow> 'a state \<Rightarrow> 'a outcome" where
  "Queue_copy this other s =
     (if this = other then Undefined
      else case objects s other of
        None \<Rightarrow> Undefined
      | Some ot \<Rightarrow>
          (let (p, s1) = operator_new (unat (m_Capacity ot)) s;
               s2 = s1\<lparr>objects := (objects s1)(this \<mapsto>
                      \<lparr>m_Container = p, m_Size = m_Size ot, m_Capacity = m_Capacity ot\<rparr>)\<rparr>
           in copy_loop p (m_Container ot) [0..<unat (m_Size ot)] s2))"

text \<open>
  \<open>Queue(Queue&& other)\<close>, as written: the initialiser of \<open>m_Container\<close> reads
  \<open>other.m_Capacity\<close>, and the new one-element buffer is assigned to \<open>other.m_Capacity\<close>,
  which the last statement overwrites. \<open>other.m_Container\<close> is neither read nor written.
  Both conversions between \<open>T*\<close> and \<open>std::size_t\<close> are ill-typed in C++, so that a
  program that calls this constructor does not compile. The model takes them as casts and
  reads the number \<open>n\<close> as the address of block \<open>n\<close>; on a machine such a small number is
  the address of no buffer.
\<close>

definition Queue_move :: "addr \<Rightarrow> addr \<Rightarrow> 'a state \<Rightarrow> 'a outcome" where
  "Queue_move this other s =
     (if this = other then Undefined
      else case objects s other of
        None \<Rightarrow> Undefined
      | Some ot \<Rightarrow>
          (let s1 = s\<lparr>objects := (objects s)(this \<mapsto>
                      \<lparr>m_Container = unat (m_Capacity ot), m_Size = m_Size ot,
                       m_Capacity = m_Capacity ot\<rparr>)\<rparr>;
               (p, s2) = operator_new (unat INITIAL_CAPACITY) s1;
               s3 = update_object other (\<lambda>q. q\<lparr>m_Capacity := of_nat p\<rparr>) s2;
               s4 = update_object other (\<lambda>q. q\<lparr>m_Size := 0\<rparr>) s3;
               s5 = update_object other (\<lambda>q. q\<lparr>m_Capacity := INITIAL_CAPACITY\<rparr>) s4
           in Normal s5))"

text \<open>The loop of \<open>Clear\<close>: \<open>m_Container[i].~T()\<close> for every \<open>i < m_Size\<close>.\<close>

fun destroy_loop :: "addr \<Rightarrow> nat list \<Rightarrow> 'a state \<Rightarrow> 'a outcome" where
  "destroy_loop p [] s = Normal s"
| "destroy_loop p (i # js) s = and_then (destroy_at p i s) (\<lambda>s1. destroy_loop p js s1)"

definition Clear :: "addr \<Rightarrow> 'a state \<Rightarrow> 'a outcome" where
  "Clear this s =
     (case objects s this of
        None \<Rightarrow> Undefined
      | Some q \<Rightarrow>
          and_then (destroy_loop (m_Container q) [0..<unat (m_Size q)] s)
            (\<lambda>s1. Normal (update_object this (\<lambda>q. q\<lparr>m_Size := 0\<rparr>) s1)))"

text \<open>\<open>operator=(const Queue& other)\<close>.\<close>

definition assign_copy :: "addr \<Rightarrow> addr \<Rightarrow> 'a state \<Rightarrow> 'a outcome" where
  "assign_copy this other s =
     (if this = other then Normal s
      else and_then (Clear this s) (\<lambda>s1.
        case objects s1 this of
          None \<Rightarrow> Undefined
        | Some q \<Rightarrow>
            and_then (operator_delete (m_Container q) (unat (m_Capacity q)) s1) (\<lambda>s2.
              case objects s2 other of
                None \<Rightarrow> Undefined
              | Some ot \<Rightarrow>
                  (let (p, s3) = operator_new (unat (m_Capacity ot)) s2;
                       s4 = update_object this (\<lambda>q. q\<lparr>m_Container := p\<rparr>) s3;
                       s5 = update_object this (\<lambda>q. q\<lparr>m_Size := m_Size ot\<rparr>) s4;
                       s6 = update_object this (\<lambda>q. q\<lparr>m_Capacity := m_Capacity ot\<rparr>) s5
                   in copy_loop p (m_Container ot) [0..<unat (m_Size ot)] s6))))"

text \<open>\<open>operator=(Queue&& other)\<close>, as written: after the check for self-assignment the
  members are overwritten at once (no \<open>Clear\<close>, no \<open>operator delete\<close>), with the same two
  conversions as in the move constructor.\<close>

definition assign_move :: "addr \<Rightarrow> addr \<Rightarrow> 'a state \<Rightarrow> 'a outcome" where
  "assign_move this other s =
     (if this = other then Normal s
      else case objects s this of
        None \<Rightarrow> Undefined
      | Some q \<Rightarrow>
          (case objects s other of
             None \<Rightarrow> Undefined
           | Some ot \<Rightarrow>
               (let s1 = update_object this (\<lambda>q. q\<lparr>m_Container := unat (m_Capacity ot)\<rparr>) s;
                    s2 = update_object this (\<lambda>q. q\<lparr>m_Size := m_Size ot\<rparr>) s1;
                    s3 = update_object this (\<lambda>q. q\<lparr>m_Capacity := m_Capacity ot\<rparr>) s2;
                    (p, s4) = operator_new (unat INITIAL_CAPACITY) s3;
                    s5 = update_object other (\<lambda>q. q\<lparr>m_Capacity := of_nat p\<rparr>) s4;
                    s6 = update_object other (\<lambda>q. q\<lparr>m_Size := 0\<rparr>) s5;
                    s7 = update_object other (\<lambda>q. q\<lparr>m_Capacity := INITIAL_CAPACITY\<rparr>) s6
                in Normal s7)))"

text \<open>The observers. \<open>None\<close> stands for undefined behaviour: no object at \<open>this\<close>, or, for
  \<open>Front\<close> and \<open>Back\<close>, a reference to something that is no live element.\<close>

definition Empty :: "addr \<Rightarrow> 'a state \<Rightarrow> bool option" where
  "Empty this s = map_option (\<lambda>q. m_Size q = 0) (objects s this)"

definition Size :: "addr \<Rightarrow> 'a state \<Rightarrow> SizeType option" where
  "Size this s = map_option m_Size (objects s this)"

definition Capacity :: "addr \<Rightarrow> 'a state \<Rightarrow> SizeType option" where
  "Capacity this s = map_option m_Capacity (objects s this)"

definition Front :: "addr \<Rightarrow> 'a state \<Rightarrow> 'a option" where
  "Front this s =
     (case objects s this of None \<Rightarrow> None | Some q \<Rightarrow> value_at (m_Container q) 0 s)"

definition Back :: "addr \<Rightarrow> 'a state \<Rightarrow> 'a option" where
  "Back this s =
     (case objects s this of
        None \<Rightarrow> None
      | Some q \<Rightarrow> value_at (m_Container q) (unat (m_Size q - 1)) s)"

text \<open>The loop of \<open>Reallocate\<close>: move \<open>m_Container[i]\<close> into \<open>newContainer[i]\<close>, then destroy
  \<open>m_Container[i]\<close>.\<close>

fun relocate_loop :: "addr \<Rightarrow> addr \<Rightarrow> nat list \<Rightarrow> 'a state \<Rightarrow> 'a outcome" where
  "relocate_loop new old [] s = Normal s"
| "relocate_loop new old (i # js) s =
     and_then (move_construct new i old i s) (\<lambda>s1.
       and_then (destroy_at old i s1) (\<lambda>s2. relocate_loop new old js s2))"

definition Reallocate :: "addr \<Rightarrow> SizeType \<Rightarrow> 'a state \<Rightarrow> 'a outcome" where
  "Reallocate this newCapacity s =
     (case objects s this of
        None \<Rightarrow> Undefined
      | Some q \<Rightarrow>
          if newCapacity \<le> m_Capacity q then Throws invalid_argument s
          else
            (let (newContainer, s1) = operator_new (unat newCapacity) s
             in and_then (relocate_loop newContainer (m_Container q) [0..<unat (m_Size q)] s1)
                  (\<lambda>s2. and_then (operator_delete (m_Container q) (unat (m_Capacity q)) s2)
                    (\<lambda>s3. Normal
                       (update_object this (\<lambda>q. q\<lparr>m_Capacity := newCapacity\<rparr>)
                          (update_object this (\<lambda>q. q\<lparr>m_Container := newContainer\<rparr>) s3))))))"

text \<open>
  The argument of \<open>Push\<close> is a reference. It refers either to an object of the caller
  that is no part of the state (\<open>Outside v\<close>, with the value \<open>v\<close> it holds), or to slot \<open>i\<close>
  of block \<open>p\<close> (\<open>Ref p i\<close>), as the references that \<open>Front\<close> and \<open>Back\<close> return do. The
  member function reads through it where the source does: after \<open>Reallocate\<close>.
\<close>

datatype 'a arg = Outside 'a | Ref addr nat

text \<open>The references \<open>m_Container[0]\<close> and \<open>m_Container[m_Size - 1]\<close> that \<open>Front\<close> and
  \<open>Back\<close> return; the definitions \<open>Front\<close> and \<open>Back\<close> above are the values read through
  them.\<close>

definition Front_ref :: "addr \<Rightarrow> 'a state \<Rightarrow> 'a arg option" where
  "Front_ref this s = map_option (\<lambda>q. Ref (m_Container q) 0) (objects s this)"

definition Back_ref :: "addr \<Rightarrow> 'a state \<Rightarrow> 'a arg option" where
  "Back_ref this s = map_option (\<lambda>q. Ref (m_Container q) (unat (m_Size q - 1))) (objects s this)"

text \<open>\<open>new (&dst[i]) T(value)\<close> and \<open>new (&dst[i]) T(std::move(value))\<close> for a reference
  \<open>value\<close>. Moving from an object in a slot leaves it alive and emptied; what becomes of an
  object outside the state is not recorded.\<close>

definition copy_into :: "'a arg \<Rightarrow> addr \<Rightarrow> nat \<Rightarrow> 'a state \<Rightarrow> 'a outcome" where
  "copy_into a dst i s =
     (case a of Outside v \<Rightarrow> construct_at dst i v s | Ref p j \<Rightarrow> copy_construct dst i p j s)"

definition move_into :: "'a arg \<Rightarrow> addr \<Rightarrow> nat \<Rightarrow> 'a state \<Rightarrow> 'a outcome" where
  "move_into a dst i s =
     (case a of Outside v \<Rightarrow> construct_at dst i v s | Ref p j \<Rightarrow> move_construct dst i p j s)"

text \<open>\<open>Push(const ValueType& value)\<close>.\<close>

definition Push :: "addr \<Rightarrow> 'a arg \<Rightarrow> 'a state \<Rightarrow> 'a outcome" where
  "Push this a s =
     (case objects s this of
        None \<Rightarrow> Undefined
      | Some q \<Rightarrow>
          and_then
            (if m_Size q \<ge> m_Capacity q then Reallocate this (m_Capacity q * 2) s else Normal s)
            (\<lambda>s1. case objects s1 this of
               None \<Rightarrow> Undefined
             | Some q1 \<Rightarrow>
                 and_then (copy_into a (m_Container q1) (unat (m_Size q1)) s1)
                   (\<lambda>s2. Normal (update_object this (\<lambda>q. q\<lparr>m_Size := m_Size q + 1\<rparr>) s2))))"

text \<open>\<open>Push(ValueType&& value)\<close>.\<close>

definition Push_rvalue :: "addr \<Rightarrow> 'a arg \<Rightarrow> 'a state \<Rightarrow> 'a outcome" where
  "Push_rvalue this a s =
     (case objects s this of
        None \<Rightarrow> Undefined
      | Some q \<Rightarrow>
          and_then
            (if m_Size q \<ge> m_Capacity q then Reallocate this (m_Capacity q * 2) s else Normal s)
            (\<lambda>s1. case objects s1 this of
               None \<Rightarrow> Undefined
             | Some q1 \<Rightarrow>
                 and_then (move_into a (m_Container q1) (unat (m_Size q1)) s1)
                   (\<lambda>s2. Normal (update_object this (\<lambda>q. q\<lparr>m_Size := m_Size q + 1\<rparr>) s2))))"

text \<open>The loop of \<open>Pop\<close>: destroy \<open>m_Container[i]\<close>, then move \<open>m_Container[i + 1]\<close> into
  its place.\<close>

fun shift_loop :: "addr \<Rightarrow> nat list \<Rightarrow> 'a state \<Rightarrow> 'a outcome" where
  "shift_loop p [] s = Normal s"
| "shift_loop p (i # js) s =
     and_then (destroy_at p i s) (\<lambda>s1.
       and_then (move_construct p i p (i + 1) s1) (\<lambda>s2. shift_loop p js s2))"

definition Pop :: "addr \<Rightarrow> 'a state \<Rightarrow> 'a outcome" where
  "Pop this s =
     (case objects s this of
        None \<Rightarrow> Undefined
      | Some q \<Rightarrow>
          if m_Size q = 0 then Normal s
          else
            (let s1 = update_object this (\<lambda>q. q\<lparr>m_Size := m_Size q - 1\<rparr>) s
             in and_then (shift_loop (m_Container q) [0..<unat (m_Size q - 1)] s1)
                  (\<lambda>s2. destroy_at (m_Container q) (unat (m_Size q - 1)) s2)))"

section \<open>Well-formed queues and what a call leaves behind\<close>

text \<open>
  The representation invariant of the data model: the object at \<open>this\<close> is a queue
  holding the elements \<open>xs\<close>, front first, with capacity \<open>cap\<close>. Its buffer is a block
  of \<open>cap\<close> slots; the first \<open>length xs\<close> slots hold the elements as live objects, the
  others are raw storage; the capacity is not zero.
\<close>

definition queue_at :: "addr \<Rightarrow> 'a list \<Rightarrow> nat \<Rightarrow> 'a state \<Rightarrow> bool" where
  "queue_at this xs cap s =
     (case objects s this of
        None \<Rightarrow> False
      | Some q \<Rightarrow>
          unat (m_Size q) = length xs \<and> unat (m_Capacity q) = cap \<and> 0 < cap \<and>
          length xs \<le> cap \<and>
          block s (m_Container q) = Some (map Live xs @ replicate (cap - length xs) Raw))"

text \<open>What holds of the state in which a call ends, whether it returns or throws. A call
  with undefined behaviour ends in no state.\<close>

definition on_exit :: "'a outcome \<Rightarrow> ('a state \<Rightarrow> bool) \<Rightarrow> bool" where
  "on_exit r P = (case r of Normal s \<Rightarrow> P s | Throws e s \<Rightarrow> P s | Undefined \<Rightarrow> True)"

text \<open>A step that works on the free store alone: it does not throw, and if it returns,
  every queue object is as it was.\<close>

definition store_only :: "'a state \<Rightarrow> 'a outcome \<Rightarrow> bool" where
  "store_only s r =
     (case r of Normal s' \<Rightarrow> objects s' = objects s | Throws e s' \<Rightarrow> False | Undefined \<Rightarrow> True)"

text \<open>The steps the two forms of \<open>Push\<close> share, with the construction of the new element
  left open; the proofs about both forms go through it.\<close>

definition push_with ::
  "(addr \<Rightarrow> nat \<Rightarrow> 'a state \<Rightarrow> 'a outcome) \<Rightarrow> addr \<Rightarrow> 'a state \<Rightarrow> 'a outcome" where
  "push_with emplace this s =
     (case objects s this of
        None \<Rightarrow> Undefined
      | Some q \<Rightarrow>
          and_then
            (if m_Size q \<ge> m_Capacity q then Reallocate this (m_Capacity q * 2) s else Normal s)
            (\<lambda>s1. case objects s1 this of
               None \<Rightarrow> Undefined
             | Some q1 \<Rightarrow>
                 and_then (emplace (m_Container q1) (unat (m_Size q1)) s1)
                   (\<lambda>s2. Normal (update_object this (\<lambda>q. q\<lparr>m_Size := m_Size q + 1\<rparr>) s2))))"

text \<open>Between \<open>s\<close> and \<open>t\<close> no block has gone from the free store's table, and every block
  of \<open>s\<close> outside \<open>P\<close> is in \<open>t\<close> what it was in \<open>s\<close>.\<close>

definition kept :: "addr set \<Rightarrow> 'a state \<Rightarrow> 'a state \<Rightarrow> bool" where
  "kept P s t =
     (length (store s) \<le> length (store t) \<and>
      (\<forall>p. p < length (store s) \<and> p \<notin> P \<longrightarrow> block t p = block s p))"

text \<open>The call has undefined behaviour.\<close>

definition undefined_behaviour :: "'a outcome \<Rightarrow> bool" where
  "undefined_behaviour r =
     (case r of Normal s \<Rightarrow> False | Throws e s \<Rightarrow> False | Undefined \<Rightarrow> True)"

text \<open>The call returns normally.\<close>

definition returns :: "'a outcome \<Rightarrow> bool" where
  "returns r = (case r of Normal s \<Rightarrow> True | Throws e s \<Rightarrow> False | Undefined \<Rightarrow> False)"

text \<open>The numeric invariant \<open>capacity >= size\<close> of the object at \<open>this\<close>, and a lower
  bound on its capacity.\<close>

definition size_le_capacity :: "addr \<Rightarrow> 'a state \<Rightarrow> bool" where
  "size_le_capacity this s =
     (case objects s this of None \<Rightarrow> False | Some q \<Rightarrow> m_Size q \<le> m_Capacity q)"

definition capacity_at_least :: "SizeType \<Rightarrow> addr \<Rightarrow> 'a state \<Rightarrow> bool" where
  "capacity_at_least c this s =
     (case objects s this of None \<Rightarrow> False | Some q \<Rightarrow> c \<le> m_Capacity q)"

text \<open>Two queue objects that own different buffers.\<close>

definition apart :: "addr \<Rightarrow> addr \<Rightarrow> 'a state \<Rightarrow> bool" where
  "apart a b s =
     (case objects s a of
        None \<Rightarrow> False
      | Some qa \<Rightarrow>
          (case objects s b of
             None \<Rightarrow> False
           | Some qb \<Rightarrow> a \<noteq> b \<and> m_Container qa \<noteq> m_Container qb))"

text \<open>The queue object at \<open>other\<close> is \<open>ot\<close>, its buffer holds the slots \<open>B\<close>, and the queue
  at \<open>this\<close>, if there is one, has another buffer.\<close>

definition untouched :: "addr \<Rightarrow> addr \<Rightarrow> queue \<Rightarrow> 'a slot list \<Rightarrow> 'a state \<Rightarrow> bool" where
  "untouched this other ot B s =
     (objects s other = Some ot \<and> block s (m_Container ot) = Some B \<and>
      (case objects s this of None \<Rightarrow> True | Some q \<Rightarrow> m_Container q \<noteq> m_Container ot))"

text \<open>A caller that mutates one queue by a sequence of calls of \<open>Push(const ValueType&)\<close>
  (\<open>DoPush\<close>), \<open>Push(ValueType&&)\<close> (\<open>DoPushMove\<close>), \<open>Pop\<close> and \<open>Clear\<close>; an exception ends the
  sequence.\<close>

datatype 'a mutation = DoPush "'a arg" | DoPushMove "'a arg" | DoPop | DoClear

fun mutate :: "addr \<Rightarrow> 'a mutation \<Rightarrow> 'a state \<Rightarrow> 'a outcome" where
  "mutate this (DoPush a) s = Push this a s"
| "mutate this (DoPushMove a) s = Push_rvalue this a s"
| "mutate this DoPop s = Pop this s"
| "mutate this DoClear s = Clear this s"

fun mutate_all :: "addr \<Rightarrow> 'a mutation list \<Rightarrow> 'a state \<Rightarrow> 'a outcome" where
  "mutate_all this [] s = Normal s"
| "mutate_all this (m # ms) s = and_then (mutate this m s) (\<lambda>s1. mutate_all this ms s1)"

text \<open>The mutation hands over an object of the caller, no reference into the free
  store.\<close>

fun by_value :: "'a mutation \<Rightarrow> bool" where
  "by_value (DoPush (Ref p i)) = False"
| "by_value (DoPushMove (Ref p i)) = False"
| "by_value m = True"

text \<open>The mutation hands a slot of block \<open>p\<close> to \<open>Push(ValueType&&)\<close>, which empties the
  object in it.\<close>

fun moves_from :: "addr \<Rightarrow> 'a mutation \<Rightarrow> bool" where
  "moves_from p (DoPushMove (Ref p' i)) = (p' = p)"
| "moves_from p m = False"

text \<open>The same for the buffer of the queue at \<open>other\<close>.\<close>

definition moves_from_queue :: "addr \<Rightarrow> 'a state \<Rightarrow> 'a mutation \<Rightarrow> bool" where
  "moves_from_queue other s m =
     (case objects s other of None \<Rightarrow> False | Some q \<Rightarrow> moves_from (m_Container q) m)"

text \<open>A caller that runs a sequence of \<open>Push\<close> and \<open>Pop\<close> calls on one queue and, before
  every \<open>Pop\<close> of a queue that is not \<open>Empty\<close>, reads \<open>Front\<close>. It returns the fronts it
  has read, in the order of the calls, and the final state; \<open>None\<close> when a call does not
  return normally.\<close>

datatype 'a call = CallPush "'a arg" | CallPop

text \<open>The call hands over an object of the caller, no reference into the free store.\<close>

fun call_by_value :: "'a call \<Rightarrow> bool" where
  "call_by_value (CallPush (Ref p i)) = False"
| "call_by_value c = True"

text \<open>The values that the calls of \<open>Push\<close> hand over in objects of the caller, in the order
  of the calls.\<close>

fun pushed :: "'a call list \<Rightarrow> 'a list" where
  "pushed [] = []"
| "pushed (CallPush (Outside v) # cs) = v # pushed cs"
| "pushed (CallPush (Ref p i) # cs) = pushed cs"
| "pushed (CallPop # cs) = pushed cs"

fun drive :: "addr \<Rightarrow> 'a call list \<Rightarrow> 'a state \<Rightarrow> ('a list \<times> 'a state) option" where
  "drive this [] s = Some ([], s)"
| "drive this (CallPush a # cs) s =
     (case Push this a s of Normal s1 \<Rightarrow> drive this cs s1 | _ \<Rightarrow> None)"
| "drive this (CallPop # cs) s =
     (case Empty this s of
        None \<Rightarrow> None
      | Some True \<Rightarrow> (case Pop this s of Normal s1 \<Rightarrow> drive this cs s1 | _ \<Rightarrow> None)
      | Some False \<Rightarrow>
          (case Front this s of
             None \<Rightarrow> None
           | Some x \<Rightarrow>
               (case Pop this s of
                  Normal s1 \<Rightarrow> map_option (\<lambda>(fs, t). (x # fs, t)) (drive this cs s1)
                | _ \<Rightarrow> None)))"

text \<open>Two states of a small program, for the examples: after \<open>Queue<int> q; q.Push(1);\<close>
  and after two more calls \<open>q.Push(2); q.Push(3);\<close>, with \<open>q\<close> at address 0.\<close>

definition no_queues :: "int state" where
  "no_queues = \<lparr>objects = Map.empty, store = []\<rparr>"

definition one_pushed :: "int state" where
  "one_pushed =
     \<lparr>objects = [0 \<mapsto> \<lparr>m_Container = 0, m_Size = 1, m_Capacity = 1\<rparr>],
      store = [Some [Live 1]]\<rparr>"

definition three_pushed :: "int state" where
  "three_pushed =
     \<lparr>objects = [0 \<mapsto> \<lparr>m_Container = 2, m_Size = 3, m_Capacity = 4\<rparr>],
      store = [None, None, Some [Live 1, Live 2, Live 3, Raw]]\<rparr>"

text \<open>The second state with a default-constructed \<open>Queue<int> p;\<close> at address 1 beside
  \<open>q\<close>.\<close>

definition two_queues :: "int state" where
  "two_queues =
     \<lparr>objects = [0 \<mapsto> \<lparr>m_Container = 2, m_Size = 3, m_Capacity = 4\<rparr>,
                 1 \<mapsto> \<lparr>m_Container = 3, m_Size = 0, m_Capacity = 1\<rparr>],
      store = [None, None, Some [Live 1, Live 2, Live 3, Raw], Some [Raw]]\<rparr>"

section \<open>The free store and the loops\<close>

lemma block_set_block [simp]:
  "block (set_block p b s) p' = (if p' = p \<and> p < length (store s) then b else block s p')"
  by (simp add: block_def set_block_def)

lemma objects_set_block [simp]: "objects (set_block p b s) = objects s"
  by (simp add: set_block_def)

lemma length_store_set_block [simp]: "length (store (set_block p b s)) = length (store s)"
  by (simp add: set_block_def)

lemma block_update_object [simp]: "block (update_object this f s) p = block s p"
  by (simp add: block_def update_object_def)

lemma store_update_object [simp]: "store (update_object this f s) = store s"
  by (simp add: update_object_def)

lemma objects_update_object [simp]:
  "objects (update_object this f s) = (objects s)(this := map_option f (objects s this))"
  by (simp add: update_object_def)

lemma block_Some_less: "block s p = Some b \<Longrightarrow> p < length (store s)"
  by (simp add: block_def split: if_splits)

lemma set_block_twice [simp]: "set_block p b (set_block p b' s) = set_block p b s"
  by (simp add: set_block_def)

lemma set_block_thrice [simp]:
  "set_block p b (set_block p' b' (set_block p b'' s)) = set_block p b (set_block p' b' s)"
proof (cases "p = p'")
  case True
  then show ?thesis by simp
next
  case False
  have "(store s)[p := b'', p' := b', p := b] = (store s)[p' := b', p := b]"
    using False by (simp add: list_update_swap [of p p'])
  then show ?thesis by (simp add: set_block_def)
qed

lemma set_block_same: "block s p = Some b \<Longrightarrow> set_block p (Some b) s = s"
  by (simp add: block_def set_block_def list_update_same_conv [THEN iffD2] split: if_splits)

lemma update_object_same: "objects s this = Some q \<Longrightarrow> f q = q \<Longrightarrow> update_object this f s = s"
  by (simp add: update_object_def fun_upd_idem)

lemma destroy_loop_range:
  "block s p = Some (pre @ ys @ post) \<Longrightarrow> list_all (\<lambda>x. x \<noteq> Raw) ys \<Longrightarrow>
   destroy_loop p [length pre..<length pre + length ys] s =
     Normal (set_block p (Some (pre @ replicate (length ys) Raw @ post)) s)"
proof (induction ys arbitrary: pre s)
  case Nil
  then show ?case by (simp add: set_block_same)
next
  case (Cons y ys)
  have lt: "p < length (store s)" using Cons.prems(1) by (rule block_Some_less)
  let ?s1 = "set_block p (Some ((pre @ [Raw]) @ ys @ post)) s"
  have step: "destroy_at p (length pre) s = Normal ?s1"
    using Cons.prems by (simp add: destroy_at_def nth_append)
  have "block ?s1 p = Some ((pre @ [Raw]) @ ys @ post)" using lt by simp
  from Cons.IH [OF this] Cons.prems(2)
  have "destroy_loop p [Suc (length pre)..<Suc (length pre) + length ys] ?s1 =
          Normal (set_block p (Some (pre @ replicate (Suc (length ys)) Raw @ post)) s)"
    by (simp add: replicate_app_Cons_same)
  then show ?case
    using step by (simp add: upt_conv_Cons and_then_def del: upt_Suc)
qed


lemma shift_loop_range:
  "block s p = Some (pre @ [d] @ map Live vs @ post) \<Longrightarrow> d \<noteq> Raw \<Longrightarrow>
   shift_loop p [length pre..<length pre + length vs] s =
     Normal (set_block p
       (Some (pre @ map Live vs @ [if vs = [] then d else MovedFrom] @ post)) s)"
proof (induction vs arbitrary: pre d s)
  case Nil
  then show ?case by (simp add: set_block_same)
next
  case (Cons v vs)
  have lt: "p < length (store s)" using Cons.prems(1) by (rule block_Some_less)
  let ?k = "length pre"
  let ?s1 = "set_block p (Some (pre @ Raw # Live v # map Live vs @ post)) s"
  let ?s2 = "set_block p (Some ((pre @ [Live v]) @ [MovedFrom] @ map Live vs @ post)) s"
  have d: "destroy_at p ?k s = Normal ?s1"
    using Cons.prems by (simp add: destroy_at_def nth_append)
  have m: "move_construct p ?k p (?k + 1) ?s1 = Normal ?s2"
    using lt by (simp add: move_construct_def value_at_def construct_at_def nth_append
        list_update_append)
  have "block ?s2 p = Some ((pre @ [Live v]) @ [MovedFrom] @ map Live vs @ post)"
    using lt by simp
  from Cons.IH [OF this]
  have "shift_loop p [Suc ?k..<Suc ?k + length vs] ?s2 =
          Normal (set_block p (Some (pre @ map Live (v # vs) @ [MovedFrom] @ post)) s)"
    by simp
  then show ?case
    using d m by (simp add: upt_conv_Cons and_then_def del: upt_Suc)
qed

lemma copy_loop_range:
  "block s src = Some (spre @ map Live vs @ spost) \<Longrightarrow>
   block s dst = Some (pre @ mid @ post) \<Longrightarrow> dst \<noteq> src \<Longrightarrow>
   length spre = length pre \<Longrightarrow> length mid = length vs \<Longrightarrow>
   copy_loop dst src [length pre..<length pre + length vs] s =
     Normal (set_block dst (Some (pre @ map Live vs @ post)) s)"
proof (induction vs arbitrary: pre spre mid s)
  case Nil
  then show ?case by (simp add: set_block_same)
next
  case (Cons v vs)
  then obtain m mid' where mid: "mid = m # mid'" by (cases mid) auto
  have lt: "dst < length (store s)" using Cons.prems(2) by (rule block_Some_less)
  let ?k = "length pre"
  let ?s1 = "set_block dst (Some ((pre @ [Live v]) @ mid' @ post)) s"
  have c: "copy_construct dst ?k src ?k s = Normal ?s1"
    using Cons.prems mid
    by (simp add: copy_construct_def value_at_def construct_at_def nth_append)
  have src1: "block ?s1 src = Some ((spre @ [Live v]) @ map Live vs @ spost)"
    using Cons.prems by simp
  have dst1: "block ?s1 dst = Some ((pre @ [Live v]) @ mid' @ post)"
    using lt by simp
  from Cons.IH [OF src1 dst1] Cons.prems mid
  have "copy_loop dst src [Suc ?k..<Suc ?k + length vs] ?s1 =
          Normal (set_block dst (Some (pre @ map Live (v # vs) @ post)) s)"
    by simp
  then show ?case
    using c by (simp add: upt_conv_Cons and_then_def del: upt_Suc)
qed

lemma update_at_length: "length a = k \<Longrightarrow> (a @ x # r)[k := y] = a @ y # r"
  by auto

lemma nth_at_length: "length a = k \<Longrightarrow> (a @ x # r) ! k = x"
  by auto

lemma relocate_loop_range:
  "block s old = Some (opre @ map Live vs @ opost) \<Longrightarrow>
   block s new = Some (pre @ mid @ post) \<Longrightarrow> new \<noteq> old \<Longrightarrow>
   length opre = length pre \<Longrightarrow> length mid = length vs \<Longrightarrow>
   relocate_loop new old [length pre..<length pre + length vs] s =
     Normal (set_block old (Some (opre @ replicate (length vs) Raw @ opost))
              (set_block new (Some (pre @ map Live vs @ post)) s))"
proof (induction vs arbitrary: pre opre mid s)
  case Nil
  then show ?case by (simp add: set_block_same)
next
  case (Cons v vs)
  then obtain m mid' where mid: "mid = m # mid'" by (cases mid) auto
  have ltn: "new < length (store s)" using Cons.prems(2) by (rule block_Some_less)
  have lto: "old < length (store s)" using Cons.prems(1) by (rule block_Some_less)
  let ?k = "length pre"
  let ?s1 = "set_block new (Some ((pre @ [Live v]) @ mid' @ post))
              (set_block old (Some (opre @ MovedFrom # map Live vs @ opost)) s)"
  let ?s2 = "set_block old (Some ((opre @ [Raw]) @ map Live vs @ opost)) ?s1"
  note at = update_at_length [OF Cons.prems(4)] nth_at_length [OF Cons.prems(4)]
  have mv: "move_construct new ?k old ?k s = Normal ?s1"
    using Cons.prems mid lto
    by (simp add: move_construct_def value_at_def construct_at_def nth_append at)
  have ds: "destroy_at old ?k ?s1 = Normal ?s2"
    using Cons.prems lto by (simp add: destroy_at_def at)
  have old2: "block ?s2 old = Some ((opre @ [Raw]) @ map Live vs @ opost)"
    using lto by simp
  have new2: "block ?s2 new = Some ((pre @ [Live v]) @ mid' @ post)"
    using ltn Cons.prems(3) by simp
  have flat: "set_block old b (set_block new c ?s2) = set_block old b (set_block new c s)" for b c
    using Cons.prems(3) by (simp add: set_block_def list_update_swap [of new old])
  from Cons.IH [OF old2 new2] Cons.prems mid
  have "relocate_loop new old [Suc ?k..<Suc ?k + length vs] ?s2 =
          Normal (set_block old (Some (opre @ replicate (length (v # vs)) Raw @ opost))
                   (set_block new (Some (pre @ map Live (v # vs) @ post)) s))"
    by (simp add: flat replicate_app_Cons_same)
  then show ?case
    using mv ds by (simp add: upt_conv_Cons and_then_def del: upt_Suc)
qed


lemma store_set_block [simp]: "store (set_block p b s) = (store s)[p := b]"
  by (simp add: set_block_def)

lemma copy_into_Outside [simp]: "copy_into (Outside v) dst i s = construct_at dst i v s"
  by (simp add: copy_into_def)

lemma move_into_Outside [simp]: "move_into (Outside v) dst i s = construct_at dst i v s"
  by (simp add: move_into_def)

lemma Push_push_with: "Push this a s = push_with (copy_into a) this s"
  by (simp add: Push_def push_with_def)

lemma Push_rvalue_push_with: "Push_rvalue this a s = push_with (move_into a) this s"
  by (simp add: Push_rvalue_def push_with_def)

lemma Push_rvalue_same: "Push_rvalue this (Outside v) s = Push this (Outside v) s"
proof -
  have "move_into (Outside v) = copy_into (Outside v)" by (simp add: fun_eq_iff)
  then show ?thesis by (simp add: Push_push_with Push_rvalue_push_with)
qed

lemma unat_double: "unat (c :: SizeType) < 2 ^ 63 \<Longrightarrow> unat (c * 2) = 2 * unat c"
  by (simp add: unat_word_ariths)

lemma unat_succ: "unat (x :: SizeType) < 2 ^ 64 - 1 \<Longrightarrow> unat (x + 1) = Suc (unat x)"
  by (simp add: unat_word_ariths)

lemma unat_pred: "(x :: SizeType) \<noteq> 0 \<Longrightarrow> unat (x - 1) = unat x - 1"
  by (rule unat_minus_one)

lemma double_wraps: "2 ^ 63 \<le> unat (c :: SizeType) \<Longrightarrow> c * 2 \<le> c"
proof -
  assume a: "2 ^ 63 \<le> unat c"
  have b: "unat c < 2 ^ 64" using unsigned_less [of c] by simp
  have "unat (c * 2) = (unat c * 2) mod 2 ^ 64" by (simp add: unat_word_ariths)
  also have "\<dots> = unat c * 2 - 2 ^ 64"
    using a b by (simp add: mod_if)
  finally show ?thesis using b by (simp add: word_le_nat_alt)
qed

lemma Clear_queue_at:
  assumes "queue_at this xs cap s" and "objects s this = Some q"
  shows "\<exists>s'. Clear this s = Normal s' \<and>
           objects s' = (objects s)(this \<mapsto> q\<lparr>m_Size := 0\<rparr>) \<and>
           store s' = (store s)[m_Container q := Some (replicate cap Raw)]"
proof -
  let ?p = "m_Container q"
  have b: "block s ?p = Some ([] @ map Live xs @ replicate (cap - length xs) Raw)"
    and n: "unat (m_Size q) = length xs" and le: "length xs \<le> cap"
    using assms by (simp_all add: queue_at_def)
  have "list_all (\<lambda>x. x \<noteq> Raw) (map Live xs)" by (simp add: list_all_iff)
  from destroy_loop_range [OF b this]
  have "destroy_loop ?p [0..<unat (m_Size q)] s =
          Normal (set_block ?p (Some (replicate cap Raw)) s)"
    using n le by (simp add: replicate_add [symmetric])
  then show ?thesis
    using assms(2) by (simp add: Clear_def and_then_def)
qed

lemma Pop_queue_at:
  assumes "queue_at this (x # xs) cap s" and "objects s this = Some q"
  shows "\<exists>s'. Pop this s = Normal s' \<and>
           objects s' = (objects s)(this \<mapsto> q\<lparr>m_Size := m_Size q - 1\<rparr>) \<and>
           store s' = (store s)[m_Container q :=
                        Some (map Live xs @ replicate (cap - length xs) Raw)]"
proof -
  let ?p = "m_Container q"
  let ?s1 = "update_object this (\<lambda>q. q\<lparr>m_Size := m_Size q - 1\<rparr>) s"
  let ?rest = "replicate (cap - Suc (length xs)) Raw"
  have b: "block s ?p = Some ([] @ [Live x] @ map Live xs @ ?rest)"
    and n: "unat (m_Size q) = Suc (length xs)" and le: "Suc (length xs) \<le> cap"
    using assms by (simp_all add: queue_at_def)
  have nz: "m_Size q \<noteq> 0" using n by auto
  have n1: "unat (m_Size q - 1) = length xs" using n nz by (simp add: unat_pred)
  have lt: "?p < length (store s)" using b by (rule block_Some_less)
  have b1: "block ?s1 ?p = Some ([] @ [Live x] @ map Live xs @ ?rest)" using b by simp
  let ?d = "if xs = [] then Live x else MovedFrom"
  let ?s2 = "set_block ?p (Some (map Live xs @ [?d] @ ?rest)) ?s1"
  have sh: "shift_loop ?p [0..<unat (m_Size q - 1)] ?s1 = Normal ?s2"
    using shift_loop_range [OF b1] n1 by simp
  have rep: "Raw # ?rest = replicate (cap - length xs) Raw"
    using le by (cases "cap - length xs") simp_all
  have upd: "(map Live xs @ [?d] @ ?rest)[length xs := Raw] =
               map Live xs @ replicate (cap - length xs) Raw"
    using rep by (simp add: update_at_length)
  have nth: "(map Live xs @ [?d] @ ?rest) ! length xs = ?d"
    by (simp add: nth_at_length)
  have "destroy_at ?p (unat (m_Size q - 1)) ?s2 =
          Normal (set_block ?p (Some (map Live xs @ replicate (cap - length xs) Raw)) ?s1)"
    unfolding destroy_at_def n1 using lt by (simp only: block_set_block store_update_object
        if_True simp_thms option.case length_append length_map list.size upd nth) simp
  then show ?thesis
    using assms(2) nz sh by (simp add: Pop_def and_then_def)
qed

lemma Reallocate_queue_at:
  assumes "queue_at this xs cap s" and "objects s this = Some q" and "m_Capacity q < n"
  shows "\<exists>s'. Reallocate this n s = Normal s' \<and>
           objects s' = (objects s)(this \<mapsto> q\<lparr>m_Container := length (store s), m_Capacity := n\<rparr>) \<and>
           store s' = (store s)[m_Container q := None] @
                        [Some (map Live xs @ replicate (unat n - length xs) Raw)]"
proof -
  let ?old = "m_Container q"
  let ?new = "length (store s)"
  let ?s1 = "s\<lparr>store := store s @ [Some (replicate (unat n) Raw)]\<rparr>"
  have b: "block s ?old = Some (map Live xs @ replicate (cap - length xs) Raw)"
    and sz: "unat (m_Size q) = length xs" and le: "length xs \<le> cap"
    and c: "unat (m_Capacity q) = cap"
    using assms by (simp_all add: queue_at_def)
  have lt: "?old < ?new" using b by (rule block_Some_less)
  have big: "cap < unat n" using assms(3) c by (simp add: word_less_nat_alt)
  have new: "operator_new (unat n) s = (?new, ?s1)" by (simp add: operator_new_def)
  have bo: "block ?s1 ?old = Some ([] @ map Live xs @ replicate (cap - length xs) Raw)"
    using b lt by (simp add: block_def nth_append)
  have bn: "block ?s1 ?new =
              Some ([] @ replicate (length xs) Raw @ replicate (unat n - length xs) Raw)"
    using big le by (simp add: block_def replicate_add [symmetric])
  let ?s2 = "set_block ?old (Some (replicate cap Raw))
              (set_block ?new (Some (map Live xs @ replicate (unat n - length xs) Raw)) ?s1)"
  have rl: "relocate_loop ?new ?old [0..<unat (m_Size q)] ?s1 = Normal ?s2"
    using relocate_loop_range [OF bo bn] lt sz le by (simp add: replicate_add [symmetric])
  have dl: "operator_delete ?old (unat (m_Capacity q)) ?s2 = Normal (set_block ?old None ?s2)"
    using lt c by (simp add: operator_delete_def)
  have "\<not> n \<le> m_Capacity q" using assms(3) by simp
  then show ?thesis
    using assms(2) new rl dl lt
    by (simp add: Reallocate_def and_then_def list_update_append)
qed


lemma construct_back:
  assumes "queue_at this xs cap s" and "objects s this = Some q" and "length xs < cap"
  shows "\<exists>s'. and_then (construct_at (m_Container q) (unat (m_Size q)) v s)
                (\<lambda>s2. Normal (update_object this (\<lambda>q. q\<lparr>m_Size := m_Size q + 1\<rparr>) s2)) = Normal s' \<and>
           objects s' = (objects s)(this \<mapsto> q\<lparr>m_Size := m_Size q + 1\<rparr>) \<and>
           store s' = (store s)[m_Container q :=
                        Some (map Live (xs @ [v]) @ replicate (cap - Suc (length xs)) Raw)]"
proof -
  let ?p = "m_Container q"
  have b: "block s ?p = Some (map Live xs @ replicate (cap - length xs) Raw)"
    and n: "unat (m_Size q) = length xs"
    using assms by (simp_all add: queue_at_def)
  have rep: "replicate (cap - length xs) Raw = Raw # replicate (cap - Suc (length xs)) (Raw :: 'a slot)"
    using assms(3) by (cases "cap - length xs") simp_all
  have "construct_at ?p (length xs) v s =
          Normal (set_block ?p (Some (map Live (xs @ [v]) @ replicate (cap - Suc (length xs)) Raw)) s)"
    using assms(3) by (simp add: construct_at_def b rep update_at_length)
  then show ?thesis
    using assms(2) by (simp add: n and_then_def)
qed

lemma Push_room:
  assumes "queue_at this xs cap s" and "objects s this = Some q" and "length xs < cap"
  shows "\<exists>s'. Push this (Outside v) s = Normal s' \<and>
           objects s' = (objects s)(this \<mapsto> q\<lparr>m_Size := m_Size q + 1\<rparr>) \<and>
           store s' = (store s)[m_Container q :=
                        Some (map Live (xs @ [v]) @ replicate (cap - Suc (length xs)) Raw)]"
proof -
  have "unat (m_Size q) < unat (m_Capacity q)"
    using assms by (simp add: queue_at_def)
  then have "\<not> m_Capacity q \<le> m_Size q" by (simp add: word_le_nat_alt)
  then show ?thesis
    using construct_back [OF assms, of v] assms(2) by (simp add: Push_def and_then_def)
qed

lemma Push_full:
  assumes "queue_at this xs cap s" and "objects s this = Some q" and "length xs = cap"
    and "cap < 2 ^ 63"
  shows "\<exists>s'. Push this (Outside v) s = Normal s' \<and>
           objects s' = (objects s)(this \<mapsto>
              \<lparr>m_Container = length (store s), m_Size = m_Size q + 1,
               m_Capacity = m_Capacity q * 2\<rparr>) \<and>
           store s' = (store s)[m_Container q := None] @
                        [Some (map Live (xs @ [v]) @ replicate (2 * cap - Suc cap) Raw)]"
proof -
  have sz: "unat (m_Size q) = cap" and c: "unat (m_Capacity q) = cap" and pos: "0 < cap"
    and b: "block s (m_Container q) = Some (map Live xs @ replicate (cap - length xs) Raw)"
    using assms by (simp_all add: queue_at_def)
  have full: "m_Capacity q \<le> m_Size q" using sz c by (simp add: word_le_nat_alt)
  have dbl: "unat (m_Capacity q * 2) = 2 * cap" using c assms(4) by (simp add: unat_double)
  then have grow: "m_Capacity q < m_Capacity q * 2" using c pos by (simp add: word_less_nat_alt)
  from Reallocate_queue_at [OF assms(1,2) grow]
  obtain s1 where r: "Reallocate this (m_Capacity q * 2) s = Normal s1"
    and o1: "objects s1 = (objects s)(this \<mapsto>
               q\<lparr>m_Container := length (store s), m_Capacity := m_Capacity q * 2\<rparr>)"
    and st1: "store s1 = (store s)[m_Container q := None] @
               [Some (map Live xs @ replicate (2 * cap - length xs) Raw)]"
    by (auto simp: dbl)
  let ?q1 = "q\<lparr>m_Container := length (store s), m_Capacity := m_Capacity q * 2\<rparr>"
  have q1: "objects s1 this = Some ?q1" by (simp add: o1)
  have at1: "queue_at this xs (2 * cap) s1"
    using assms(3) pos sz by (simp add: queue_at_def o1 dbl block_def st1 nth_append)
  have room: "length xs < 2 * cap" using assms(3) pos by simp
  from construct_back [OF at1 q1 room, of v]
  obtain s' where k: "and_then (construct_at (m_Container ?q1) (unat (m_Size ?q1)) v s1)
                (\<lambda>s2. Normal (update_object this (\<lambda>q. q\<lparr>m_Size := m_Size q + 1\<rparr>) s2)) = Normal s'"
    and o': "objects s' = (objects s1)(this \<mapsto> ?q1\<lparr>m_Size := m_Size ?q1 + 1\<rparr>)"
    and st': "store s' = (store s1)[m_Container ?q1 :=
                        Some (map Live (xs @ [v]) @ replicate (2 * cap - Suc (length xs)) Raw)]"
    by blast
  have "Push this (Outside v) s = Normal s'"
    using assms(2) full r q1 k by (simp add: Push_def and_then_def)
  moreover have "objects s' = (objects s)(this \<mapsto>
              \<lparr>m_Container = length (store s), m_Size = m_Size q + 1,
               m_Capacity = m_Capacity q * 2\<rparr>)"
    by (cases q) (simp add: o' o1)
  moreover have "store s' = (store s)[m_Container q := None] @
                        [Some (map Live (xs @ [v]) @ replicate (2 * cap - Suc cap) Raw)]"
    using assms(3) by (simp add: st' st1 list_update_append)
  ultimately show ?thesis by blast
qed

lemma Push_wraps:
  assumes "queue_at this xs cap s" and "objects s this = Some q" and "length xs = cap"
    and "2 ^ 63 \<le> cap"
  shows "Push this (Outside v) s = Throws invalid_argument s"
proof -
  have sz: "unat (m_Size q) = cap" and c: "unat (m_Capacity q) = cap"
    using assms by (simp_all add: queue_at_def)
  have full: "m_Capacity q \<le> m_Size q" using sz c by (simp add: word_le_nat_alt)
  have "m_Capacity q * 2 \<le> m_Capacity q" using c assms(4) by (simp add: double_wraps)
  then show ?thesis
    using assms(2) full by (simp add: Push_def Reallocate_def and_then_def)
qed

lemma queue_at_Back:
  assumes "queue_at this (xs @ [v]) cap s"
  shows "Back this s = Some v"
proof -
  from assms obtain q where q: "objects s this = Some q"
    by (auto simp: queue_at_def split: option.splits)
  have n: "unat (m_Size q) = Suc (length xs)"
    and b: "block s (m_Container q) =
              Some (map Live xs @ Live v # replicate (cap - Suc (length xs)) Raw)"
    using assms q by (simp_all add: queue_at_def)
  have "m_Size q \<noteq> 0" using n by auto
  then have "unat (m_Size q - 1) = length xs" using n by (simp add: unat_pred)
  then show ?thesis
    using q b by (simp add: Back_def value_at_def nth_at_length)
qed

lemma queue_at_Front: "queue_at this (x # xs) cap s \<Longrightarrow> Front this s = Some x"
  by (auto simp: queue_at_def Front_def value_at_def split: option.splits)

section \<open>Steps that work on the free store alone\<close>

lemma store_only_Normal [simp]: "store_only s (Normal s') = (objects s' = objects s)"
  by (simp add: store_only_def)

lemma store_only_Undefined [simp]: "store_only s Undefined"
  by (simp add: store_only_def)

lemma store_only_and_then:
  assumes "store_only s r" and "\<And>s1. objects s1 = objects s \<Longrightarrow> store_only s1 (f s1)"
  shows "store_only s (and_then r f)"
proof (cases r)
  case (Normal s1)
  then have "objects s1 = objects s" using assms(1) by simp
  with assms(2) [of s1] Normal show ?thesis
    by (cases "f s1") (simp_all add: and_then_def store_only_def)
next
  case (Throws e s1)
  then show ?thesis using assms(1) by (simp add: store_only_def)
next
  case Undefined
  then show ?thesis by (simp add: and_then_def)
qed

lemma store_only_construct_at: "store_only s (construct_at p i v s)"
  by (simp add: construct_at_def split: option.splits)

lemma store_only_destroy_at: "store_only s (destroy_at p i s)"
  by (simp add: destroy_at_def split: option.splits)

lemma store_only_operator_delete: "store_only s (operator_delete p n s)"
  by (simp add: operator_delete_def split: option.splits)

lemma store_only_copy_construct: "store_only s (copy_construct dst i src j s)"
  by (simp add: copy_construct_def store_only_construct_at split: option.splits)

lemma store_only_move_construct: "store_only s (move_construct dst i src j s)"
proof -
  have "store_only s (construct_at dst i v t)" if "objects t = objects s" for t v
    using store_only_construct_at [of t dst i v] that
    by (cases "construct_at dst i v t") (simp_all add: store_only_def)
  then show ?thesis by (simp add: move_construct_def split: option.splits)
qed

lemma store_only_destroy_loop: "store_only s (destroy_loop p js s)"
proof (induction js arbitrary: s)
  case Nil
  show ?case by simp
next
  case (Cons i js)
  show ?case
    unfolding destroy_loop.simps
    by (rule store_only_and_then [OF store_only_destroy_at]) (rule Cons.IH)
qed

lemma store_only_copy_loop: "store_only s (copy_loop dst src js s)"
proof (induction js arbitrary: s)
  case Nil
  show ?case by simp
next
  case (Cons i js)
  show ?case
    unfolding copy_loop.simps
    by (rule store_only_and_then [OF store_only_copy_construct]) (rule Cons.IH)
qed

lemma store_only_relocate_loop: "store_only s (relocate_loop new old js s)"
proof (induction js arbitrary: s)
  case Nil
  show ?case by simp
next
  case (Cons i js)
  show ?case
    unfolding relocate_loop.simps
    by (rule store_only_and_then [OF store_only_move_construct],
        rule store_only_and_then [OF store_only_destroy_at], rule Cons.IH)
qed

lemma store_only_shift_loop: "store_only s (shift_loop p js s)"
proof (induction js arbitrary: s)
  case Nil
  show ?case by simp
next
  case (Cons i js)
  show ?case
    unfolding shift_loop.simps
    by (rule store_only_and_then [OF store_only_destroy_at],
        rule store_only_and_then [OF store_only_move_construct], rule Cons.IH)
qed

lemma store_only_cases:
  assumes "store_only s r"
  obtains "r = Undefined" | s' where "r = Normal s'" and "objects s' = objects s"
  using assms by (cases r) (simp_all add: store_only_def)

section \<open>The member functions on well-formed queues\<close>

lemma unat_SizeType_less: "unat (c :: SizeType) < 2 ^ 64"
  using unsigned_less [of c] by simp

lemma queue_at_object:
  assumes "queue_at this xs cap s"
  obtains q where "objects s this = Some q" and "unat (m_Size q) = length xs"
    and "unat (m_Capacity q) = cap" and "0 < cap" and "length xs \<le> cap"
    and "block s (m_Container q) = Some (map Live xs @ replicate (cap - length xs) Raw)"
    and "m_Container q < length (store s)"
proof -
  from assms obtain q where q: "objects s this = Some q"
    by (auto simp: queue_at_def split: option.splits)
  have b: "block s (m_Container q) = Some (map Live xs @ replicate (cap - length xs) Raw)"
    using assms q by (simp add: queue_at_def)
  show ?thesis
    using that [OF q _ _ _ _ b block_Some_less [OF b]] assms q by (simp add: queue_at_def)
qed

lemma Clear_step:
  assumes "queue_at this xs cap s" and "objects s this = Some q"
  shows "\<exists>s'. Clear this s = Normal s' \<and> queue_at this [] cap s' \<and>
           objects s' = (objects s)(this \<mapsto> q\<lparr>m_Size := 0\<rparr>) \<and>
           store s' = (store s)[m_Container q := Some (replicate cap Raw)]"
proof -
  from assms(1) obtain q0 where "objects s this = Some q0" and "unat (m_Capacity q0) = cap"
    and "0 < cap" and "m_Container q0 < length (store s)"
    by (rule queue_at_object)
  then have c: "unat (m_Capacity q) = cap" and pos: "0 < cap"
    and lt: "m_Container q < length (store s)"
    using assms(2) by simp_all
  from Clear_queue_at [OF assms]
  obtain s' where cl: "Clear this s = Normal s'"
    and o: "objects s' = (objects s)(this \<mapsto> q\<lparr>m_Size := 0\<rparr>)"
    and st: "store s' = (store s)[m_Container q := Some (replicate cap Raw)]"
    by blast
  have "queue_at this [] cap s'"
    using c pos lt by (simp add: queue_at_def o st block_def)
  then show ?thesis using cl o st by blast
qed

lemma Pop_step:
  assumes "queue_at this (x # xs) cap s" and "objects s this = Some q"
  shows "\<exists>s'. Pop this s = Normal s' \<and> queue_at this xs cap s' \<and>
           objects s' = (objects s)(this \<mapsto> q\<lparr>m_Size := m_Size q - 1\<rparr>) \<and>
           store s' = (store s)[m_Container q :=
                        Some (map Live xs @ replicate (cap - length xs) Raw)]"
proof -
  from assms(1) obtain q0 where "objects s this = Some q0" and "unat (m_Capacity q0) = cap"
    and "0 < cap" and "m_Container q0 < length (store s)"
    and "unat (m_Size q0) = length (x # xs)" and "length (x # xs) \<le> cap"
    by (rule queue_at_object)
  then have c: "unat (m_Capacity q) = cap" and pos: "0 < cap"
    and lt: "m_Container q < length (store s)" and n: "unat (m_Size q) = Suc (length xs)"
    and le: "Suc (length xs) \<le> cap"
    using assms(2) by simp_all
  have "m_Size q \<noteq> 0" using n by auto
  then have n1: "unat (m_Size q - 1) = length xs" using n by (simp add: unat_pred)
  from Pop_queue_at [OF assms]
  obtain s' where pp: "Pop this s = Normal s'"
    and o: "objects s' = (objects s)(this \<mapsto> q\<lparr>m_Size := m_Size q - 1\<rparr>)"
    and st: "store s' = (store s)[m_Container q :=
                        Some (map Live xs @ replicate (cap - length xs) Raw)]"
    by blast
  have "queue_at this xs cap s'"
    using c pos lt n1 le by (simp add: queue_at_def o st block_def)
  then show ?thesis using pp o st by blast
qed

lemma Push_room_step:
  assumes "queue_at this xs cap s" and "objects s this = Some q" and "length xs < cap"
  shows "\<exists>s'. Push this (Outside v) s = Normal s' \<and> queue_at this (xs @ [v]) cap s' \<and>
           objects s' = (objects s)(this \<mapsto> q\<lparr>m_Size := m_Size q + 1\<rparr>) \<and>
           store s' = (store s)[m_Container q :=
                        Some (map Live (xs @ [v]) @ replicate (cap - Suc (length xs)) Raw)]"
proof -
  from assms(1) obtain q0 where "objects s this = Some q0" and "unat (m_Capacity q0) = cap"
    and "0 < cap" and "m_Container q0 < length (store s)"
    and "unat (m_Size q0) = length xs"
    by (rule queue_at_object)
  then have c: "unat (m_Capacity q) = cap" and pos: "0 < cap"
    and lt: "m_Container q < length (store s)" and n: "unat (m_Size q) = length xs"
    using assms(2) by simp_all
  have "unat (m_Size q) < 2 ^ 64 - 1"
    using n c assms(3) unat_SizeType_less [of "m_Capacity q"] by simp
  then have sz1: "unat (m_Size q + 1) = Suc (length xs)" using n by (simp add: unat_succ)
  from Push_room [OF assms, of v]
  obtain s' where p: "Push this (Outside v) s = Normal s'"
    and o: "objects s' = (objects s)(this \<mapsto> q\<lparr>m_Size := m_Size q + 1\<rparr>)"
    and st: "store s' = (store s)[m_Container q :=
                        Some (map Live (xs @ [v]) @ replicate (cap - Suc (length xs)) Raw)]"
    by blast
  have "queue_at this (xs @ [v]) cap s'"
    using assms(3) pos sz1 c lt by (simp add: queue_at_def o st block_def)
  then show ?thesis using p o st by blast
qed

lemma Push_full_step:
  assumes "queue_at this xs cap s" and "objects s this = Some q" and "length xs = cap"
    and "cap < 2 ^ 63"
  shows "\<exists>s'. Push this (Outside v) s = Normal s' \<and> queue_at this (xs @ [v]) (2 * cap) s' \<and>
           objects s' = (objects s)(this \<mapsto>
              \<lparr>m_Container = length (store s), m_Size = m_Size q + 1,
               m_Capacity = m_Capacity q * 2\<rparr>) \<and>
           store s' = (store s)[m_Container q := None] @
                        [Some (map Live (xs @ [v]) @ replicate (2 * cap - Suc cap) Raw)]"
proof -
  from assms(1) obtain q0 where "objects s this = Some q0" and "unat (m_Capacity q0) = cap"
    and "0 < cap" and "unat (m_Size q0) = length xs"
    by (rule queue_at_object)
  then have c: "unat (m_Capacity q) = cap" and pos: "0 < cap"
    and n: "unat (m_Size q) = length xs"
    using assms(2) by simp_all
  have sz1: "unat (m_Size q + 1) = Suc (length xs)"
    using n assms(3,4) by (simp add: unat_succ)
  have dbl: "unat (m_Capacity q * 2) = 2 * cap" using c assms(4) by (simp add: unat_double)
  from Push_full [OF assms, of v]
  obtain s' where p: "Push this (Outside v) s = Normal s'"
    and o: "objects s' = (objects s)(this \<mapsto>
              \<lparr>m_Container = length (store s), m_Size = m_Size q + 1,
               m_Capacity = m_Capacity q * 2\<rparr>)"
    and st: "store s' = (store s)[m_Container q := None] @
                        [Some (map Live (xs @ [v]) @ replicate (2 * cap - Suc cap) Raw)]"
    by blast
  have "queue_at this (xs @ [v]) (2 * cap) s'"
    using assms(3) pos sz1 dbl by (simp add: queue_at_def o st block_def nth_append)
  then show ?thesis using p o st by blast
qed


lemma Push_step:
  assumes "queue_at this xs cap s" and "length xs < 2 ^ 63"
  shows "\<exists>s'. Push this (Outside v) s = Normal s' \<and>
           queue_at this (xs @ [v]) (if length xs = cap then 2 * cap else cap) s'"
proof -
  from assms(1) obtain q where q: "objects s this = Some q" and le: "length xs \<le> cap"
    by (rule queue_at_object)
  show ?thesis
  proof (cases "length xs = cap")
    case True
    then have "cap < 2 ^ 63" using assms(2) by simp
    from Push_full_step [OF assms(1) q True this, of v] True show ?thesis by auto
  next
    case False
    then have "length xs < cap" using le by simp
    from Push_room_step [OF assms(1) q this, of v] False show ?thesis by auto
  qed
qed

lemma Queue_step:
  "\<exists>s'. Queue this s = Normal s' \<and> queue_at this [] 1 s' \<and>
     objects s' = (objects s)(this \<mapsto>
        \<lparr>m_Container = length (store s), m_Size = 0, m_Capacity = 1\<rparr>) \<and>
     store s' = store s @ [Some [Raw]]"
  by (simp add: Queue_def operator_new_def INITIAL_CAPACITY_def queue_at_def block_def)

lemma queue_at_Empty:
  assumes "queue_at this xs cap s"
  shows "Empty this s = Some (xs = [])"
proof -
  from assms obtain q where q: "objects s this = Some q" and n: "unat (m_Size q) = length xs"
    by (rule queue_at_object)
  have "(m_Size q = 0) = (xs = [])" using n by (auto simp: unat_eq_0 [symmetric])
  then show ?thesis using q by (simp add: Empty_def)
qed

lemma Pop_empty:
  assumes "queue_at this [] cap s"
  shows "Pop this s = Normal s"
proof -
  from assms obtain q where q: "objects s this = Some q" and n: "unat (m_Size q) = 0"
    by (auto elim: queue_at_object)
  have "m_Size q = 0" using n by (simp add: unat_eq_0)
  then show ?thesis using q by (simp add: Pop_def)
qed

section \<open>What each member function does to the queue objects\<close>

lemma Clear_objects:
  assumes "objects s this = Some q"
  shows "case Clear this s of
           Normal t \<Rightarrow> objects t = (objects s)(this \<mapsto> q\<lparr>m_Size := 0\<rparr>)
         | Throws e t \<Rightarrow> False
         | Undefined \<Rightarrow> True"
proof (rule store_only_cases [OF store_only_destroy_loop [of s "m_Container q" "[0..<unat (m_Size q)]"]])
  assume "destroy_loop (m_Container q) [0..<unat (m_Size q)] s = Undefined"
  then show ?thesis using assms by (simp add: Clear_def and_then_def)
next
  fix s1
  assume "destroy_loop (m_Container q) [0..<unat (m_Size q)] s = Normal s1"
    and "objects s1 = objects s"
  then show ?thesis using assms by (simp add: Clear_def and_then_def)
qed

lemma Pop_objects:
  assumes "objects s this = Some q"
  shows "case Pop this s of
           Normal t \<Rightarrow> objects t = (if m_Size q = 0 then objects s
                          else (objects s)(this \<mapsto> q\<lparr>m_Size := m_Size q - 1\<rparr>))
         | Throws e t \<Rightarrow> False
         | Undefined \<Rightarrow> True"
proof (cases "m_Size q = 0")
  case True
  then show ?thesis using assms by (simp add: Pop_def)
next
  case False
  let ?s1 = "update_object this (\<lambda>q. q\<lparr>m_Size := m_Size q - 1\<rparr>) s"
  let ?loop = "shift_loop (m_Container q) [0..<unat (m_Size q - 1)] ?s1"
  have pop: "Pop this s = and_then ?loop (destroy_at (m_Container q) (unat (m_Size q - 1)))"
    using assms False by (simp add: Pop_def)
  show ?thesis
  proof (rule store_only_cases [OF store_only_shift_loop [of ?s1 "m_Container q" "[0..<unat (m_Size q - 1)]"]])
    assume "?loop = Undefined"
    then show ?thesis by (simp add: pop and_then_def)
  next
    fix s2
    assume l: "?loop = Normal s2" and o2: "objects s2 = objects ?s1"
    show ?thesis
    proof (rule store_only_cases [OF store_only_destroy_at [of s2 "m_Container q" "unat (m_Size q - 1)"]])
      assume "destroy_at (m_Container q) (unat (m_Size q - 1)) s2 = Undefined"
      then show ?thesis using l by (simp add: pop and_then_def)
    next
      fix t
      assume "destroy_at (m_Container q) (unat (m_Size q - 1)) s2 = Normal t"
        and "objects t = objects s2"
      then show ?thesis using l o2 assms False by (simp add: pop and_then_def)
    qed
  qed
qed

lemma Reallocate_objects:
  assumes "objects s this = Some q"
  shows "case Reallocate this n s of
           Normal t \<Rightarrow> m_Capacity q < n \<and>
             objects t = (objects s)(this \<mapsto> q\<lparr>m_Container := length (store s), m_Capacity := n\<rparr>)
         | Throws e t \<Rightarrow> t = s
         | Undefined \<Rightarrow> True"
proof (cases "n \<le> m_Capacity q")
  case True
  then show ?thesis using assms by (simp add: Reallocate_def)
next
  case False
  then have gt: "m_Capacity q < n" by simp
  let ?s1 = "s\<lparr>store := store s @ [Some (replicate (unat n) Raw)]\<rparr>"
  let ?loop = "relocate_loop (length (store s)) (m_Container q) [0..<unat (m_Size q)] ?s1"
  have r: "Reallocate this n s =
             and_then ?loop
               (\<lambda>s2. and_then (operator_delete (m_Container q) (unat (m_Capacity q)) s2)
                 (\<lambda>s3. Normal
                    (update_object this (\<lambda>q. q\<lparr>m_Capacity := n\<rparr>)
                       (update_object this (\<lambda>q. q\<lparr>m_Container := length (store s)\<rparr>) s3))))"
    using assms False by (simp add: Reallocate_def operator_new_def)
  show ?thesis
  proof (rule store_only_cases [OF store_only_relocate_loop [of ?s1 "length (store s)" "m_Container q" "[0..<unat (m_Size q)]"]])
    assume "?loop = Undefined"
    then show ?thesis by (simp add: r and_then_def)
  next
    fix s2
    assume l: "?loop = Normal s2" and o2: "objects s2 = objects ?s1"
    show ?thesis
    proof (rule store_only_cases [OF store_only_operator_delete [of s2 "m_Container q" "unat (m_Capacity q)"]])
      assume "operator_delete (m_Container q) (unat (m_Capacity q)) s2 = Undefined"
      then show ?thesis using l by (simp add: r and_then_def)
    next
      fix s3
      assume "operator_delete (m_Container q) (unat (m_Capacity q)) s2 = Normal s3"
        and "objects s3 = objects s2"
      then show ?thesis using l o2 assms gt by (simp add: r and_then_def)
    qed
  qed
qed

lemma push_with_objects:
  assumes "objects s this = Some q"
    and em: "\<And>d i s1. store_only s1 (emplace d i s1)"
  shows "case push_with emplace this s of
           Normal t \<Rightarrow>
             (if m_Capacity q \<le> m_Size q
              then m_Capacity q < m_Capacity q * 2 \<and>
                   objects t = (objects s)(this \<mapsto>
                     \<lparr>m_Container = length (store s), m_Size = m_Size q + 1,
                      m_Capacity = m_Capacity q * 2\<rparr>)
              else objects t = (objects s)(this \<mapsto> q\<lparr>m_Size := m_Size q + 1\<rparr>))
         | Throws e t \<Rightarrow> t = s
         | Undefined \<Rightarrow> True"
proof -
  have tail: "case and_then (emplace (m_Container q1) (unat (m_Size q1)) s1)
                  (\<lambda>s2. Normal (update_object this (\<lambda>q. q\<lparr>m_Size := m_Size q + 1\<rparr>) s2)) of
                Normal t \<Rightarrow> objects t = (objects s1)(this \<mapsto> q1\<lparr>m_Size := m_Size q1 + 1\<rparr>)
              | Throws e t \<Rightarrow> False
              | Undefined \<Rightarrow> True"
    if "objects s1 this = Some q1" for s1 q1
  proof (rule store_only_cases [OF em [of s1 "m_Container q1" "unat (m_Size q1)"]])
    assume "emplace (m_Container q1) (unat (m_Size q1)) s1 = Undefined"
    then show ?thesis by (simp add: and_then_def)
  next
    fix s2
    assume "emplace (m_Container q1) (unat (m_Size q1)) s1 = Normal s2"
      and "objects s2 = objects s1"
    then show ?thesis using that by (simp add: and_then_def)
  qed
  show ?thesis
  proof (cases "m_Capacity q \<le> m_Size q")
    case False
    then have "push_with emplace this s =
                 and_then (emplace (m_Container q) (unat (m_Size q)) s)
                   (\<lambda>s2. Normal (update_object this (\<lambda>q. q\<lparr>m_Size := m_Size q + 1\<rparr>) s2))"
      using assms(1) by (simp add: push_with_def and_then_def)
    then show ?thesis using tail [OF assms(1)] False by (simp split: outcome.splits)
  next
    case True
    show ?thesis
    proof (cases "Reallocate this (m_Capacity q * 2) s")
      case (Normal s1)
      with Reallocate_objects [OF assms(1), of "m_Capacity q * 2"]
      have gt: "m_Capacity q < m_Capacity q * 2"
        and o1: "objects s1 = (objects s)(this \<mapsto>
                   q\<lparr>m_Container := length (store s), m_Capacity := m_Capacity q * 2\<rparr>)"
        by simp_all
      let ?q1 = "q\<lparr>m_Container := length (store s), m_Capacity := m_Capacity q * 2\<rparr>"
      have q1: "objects s1 this = Some ?q1" by (simp add: o1)
      have eq: "(objects s1)(this \<mapsto> ?q1\<lparr>m_Size := m_Size ?q1 + 1\<rparr>) =
              (objects s)(this \<mapsto> \<lparr>m_Container = length (store s), m_Size = m_Size q + 1,
               m_Capacity = m_Capacity q * 2\<rparr>)"
        by (cases q) (simp add: o1)
      have "push_with emplace this s =
              and_then (emplace (m_Container ?q1) (unat (m_Size ?q1)) s1)
                (\<lambda>s2. Normal (update_object this (\<lambda>q. q\<lparr>m_Size := m_Size q + 1\<rparr>) s2))"
        using assms(1) True Normal q1 by (simp add: push_with_def and_then_def)
      then show ?thesis
        using tail [OF q1] True gt unfolding eq by (simp split: outcome.splits)
    next
      case (Throws e s1)
      with Reallocate_objects [OF assms(1), of "m_Capacity q * 2"]
      show ?thesis using assms(1) True by (simp add: push_with_def and_then_def)
    next
      case Undefined
      then show ?thesis using assms(1) True by (simp add: push_with_def and_then_def)
    qed
  qed
qed

lemma store_only_copy_into: "store_only s (copy_into a dst i s)"
  by (cases a) (simp_all add: copy_into_def store_only_construct_at store_only_copy_construct)

lemma store_only_move_into: "store_only s (move_into a dst i s)"
  by (cases a) (simp_all add: move_into_def store_only_construct_at store_only_move_construct)

lemma Push_objects:
  assumes "objects s this = Some q"
  shows "case Push this a s of
           Normal t \<Rightarrow>
             (if m_Capacity q \<le> m_Size q
              then m_Capacity q < m_Capacity q * 2 \<and>
                   objects t = (objects s)(this \<mapsto>
                     \<lparr>m_Container = length (store s), m_Size = m_Size q + 1,
                      m_Capacity = m_Capacity q * 2\<rparr>)
              else objects t = (objects s)(this \<mapsto> q\<lparr>m_Size := m_Size q + 1\<rparr>))
         | Throws e t \<Rightarrow> t = s
         | Undefined \<Rightarrow> True"
  unfolding Push_push_with by (rule push_with_objects [OF assms]) (rule store_only_copy_into)

lemma Push_rvalue_objects:
  assumes "objects s this = Some q"
  shows "case Push_rvalue this a s of
           Normal t \<Rightarrow>
             (if m_Capacity q \<le> m_Size q
              then m_Capacity q < m_Capacity q * 2 \<and>
                   objects t = (objects s)(this \<mapsto>
                     \<lparr>m_Container = length (store s), m_Size = m_Size q + 1,
                      m_Capacity = m_Capacity q * 2\<rparr>)
              else objects t = (objects s)(this \<mapsto> q\<lparr>m_Size := m_Size q + 1\<rparr>))
         | Throws e t \<Rightarrow> t = s
         | Undefined \<Rightarrow> True"
  unfolding Push_rvalue_push_with
  by (rule push_with_objects [OF assms]) (rule store_only_move_into)

lemma Queue_copy_objects:
  assumes "objects s other = Some ot"
  shows "case Queue_copy this other s of
           Normal t \<Rightarrow> objects t = (objects s)(this \<mapsto>
              \<lparr>m_Container = length (store s), m_Size = m_Size ot, m_Capacity = m_Capacity ot\<rparr>)
         | Throws e t \<Rightarrow> False
         | Undefined \<Rightarrow> True"
proof (cases "this = other")
  case True
  then show ?thesis by (simp add: Queue_copy_def)
next
  case False
  let ?s2 = "s\<lparr>store := store s @ [Some (replicate (unat (m_Capacity ot)) Raw)],
               objects := (objects s)(this \<mapsto>
                 \<lparr>m_Container = length (store s), m_Size = m_Size ot,
                  m_Capacity = m_Capacity ot\<rparr>)\<rparr>"
  have c: "Queue_copy this other s =
             copy_loop (length (store s)) (m_Container ot) [0..<unat (m_Size ot)] ?s2"
    using assms False by (simp add: Queue_copy_def operator_new_def)
  show ?thesis
    by (rule store_only_cases [OF store_only_copy_loop [of ?s2 "length (store s)" "m_Container ot" "[0..<unat (m_Size ot)]"]])
      (simp_all add: c)
qed

lemma assign_copy_objects:
  assumes "objects s other = Some ot" and "this \<noteq> other"
  shows "case assign_copy this other s of
           Normal t \<Rightarrow> (\<exists>q'. objects t = (objects s)(this \<mapsto> q') \<and>
                          m_Size q' = m_Size ot \<and> m_Capacity q' = m_Capacity ot)
         | Throws e t \<Rightarrow> False
         | Undefined \<Rightarrow> True"
proof (cases "objects s this")
  case None
  then show ?thesis using assms(2) by (simp add: assign_copy_def Clear_def and_then_def)
next
  case (Some q)
  show ?thesis
  proof (cases "Clear this s")
    case (Normal s1)
    with Clear_objects [OF Some]
    have o1: "objects s1 = (objects s)(this \<mapsto> q\<lparr>m_Size := 0\<rparr>)" by simp
    let ?q1 = "q\<lparr>m_Size := 0\<rparr>"
    show ?thesis
    proof (rule store_only_cases [OF store_only_operator_delete [of s1 "m_Container ?q1" "unat (m_Capacity ?q1)"]])
      assume "operator_delete (m_Container ?q1) (unat (m_Capacity ?q1)) s1 = Undefined"
      then show ?thesis
        using assms(2) Normal o1 by (simp add: assign_copy_def and_then_def)
    next
      fix s2
      assume d: "operator_delete (m_Container ?q1) (unat (m_Capacity ?q1)) s1 = Normal s2"
        and o2: "objects s2 = objects s1"
      let ?p = "length (store s2)"
      let ?s6 = "update_object this (\<lambda>q. q\<lparr>m_Capacity := m_Capacity ot\<rparr>)
                  (update_object this (\<lambda>q. q\<lparr>m_Size := m_Size ot\<rparr>)
                    (update_object this (\<lambda>q. q\<lparr>m_Container := ?p\<rparr>)
                      (s2\<lparr>store := store s2 @ [Some (replicate (unat (m_Capacity ot)) Raw)]\<rparr>)))"
      have a: "assign_copy this other s =
                 copy_loop ?p (m_Container ot) [0..<unat (m_Size ot)] ?s6"
        using assms Normal o1 d o2
        by (simp add: assign_copy_def and_then_def operator_new_def)
      have o6: "objects ?s6 = (objects s)(this \<mapsto>
                  q\<lparr>m_Container := ?p, m_Size := m_Size ot, m_Capacity := m_Capacity ot\<rparr>)"
        by (simp add: o2 o1)
      show ?thesis
      proof (rule store_only_cases [OF store_only_copy_loop [of ?s6 ?p "m_Container ot" "[0..<unat (m_Size ot)]"]])
        assume "copy_loop ?p (m_Container ot) [0..<unat (m_Size ot)] ?s6 = Undefined"
        then show ?thesis by (simp only: a outcome.case)
      next
        fix t
        assume l: "copy_loop ?p (m_Container ot) [0..<unat (m_Size ot)] ?s6 = Normal t"
          and "objects t = objects ?s6"
        then have "objects t = (objects s)(this \<mapsto>
                  q\<lparr>m_Container := ?p, m_Size := m_Size ot, m_Capacity := m_Capacity ot\<rparr>)"
          by (simp only: o6)
        then have "\<exists>q'. objects t = (objects s)(this \<mapsto> q') \<and>
                          m_Size q' = m_Size ot \<and> m_Capacity q' = m_Capacity ot"
          by (intro exI [of _ "q\<lparr>m_Container := ?p, m_Size := m_Size ot, m_Capacity := m_Capacity ot\<rparr>"]) simp
        then show ?thesis by (simp only: a l outcome.case)
      qed
    qed
  next
    case (Throws e s1)
    with Clear_objects [OF Some] show ?thesis by simp
  next
    case Undefined
    then show ?thesis using assms(2) by (simp add: assign_copy_def and_then_def)
  qed
qed

lemma Queue_move_objects:
  assumes "objects s other = Some ot" and "this \<noteq> other"
  shows "\<exists>t. Queue_move this other s = Normal t \<and>
           objects t = (objects s)
             (this \<mapsto> \<lparr>m_Container = unat (m_Capacity ot), m_Size = m_Size ot,
                        m_Capacity = m_Capacity ot\<rparr>,
              other \<mapsto> ot\<lparr>m_Size := 0, m_Capacity := INITIAL_CAPACITY\<rparr>) \<and>
           store t = store s @ [Some (replicate (unat INITIAL_CAPACITY) Raw)]"
  using assms by (simp add: Queue_move_def operator_new_def)

lemma assign_move_objects:
  assumes "objects s this = Some q" and "objects s other = Some ot" and "this \<noteq> other"
  shows "\<exists>t. assign_move this other s = Normal t \<and>
           objects t = (objects s)
             (this \<mapsto> q\<lparr>m_Container := unat (m_Capacity ot), m_Size := m_Size ot,
                         m_Capacity := m_Capacity ot\<rparr>,
              other \<mapsto> ot\<lparr>m_Size := 0, m_Capacity := INITIAL_CAPACITY\<rparr>) \<and>
           store t = store s @ [Some (replicate (unat INITIAL_CAPACITY) Raw)]"
  using assms by (simp add: assign_move_def operator_new_def)

section \<open>The numeric invariant, operation by operation\<close>

lemma word_succ_le: "(x :: SizeType) < y \<Longrightarrow> x + 1 \<le> y"
proof -
  assume a: "x < y"
  then have lt: "unat x < unat y" by (simp add: word_less_nat_alt)
  then have "unat x < 2 ^ 64 - 1" using unat_SizeType_less [of y] by simp
  then have "unat (x + 1) = Suc (unat x)" by (rule unat_succ)
  then show ?thesis using lt by (simp add: word_le_nat_alt)
qed

lemma word_pred_le: "(x :: SizeType) \<le> y \<Longrightarrow> x \<noteq> 0 \<Longrightarrow> x - 1 \<le> y"
proof -
  assume a: "x \<le> y" and b: "x \<noteq> 0"
  have "unat (x - 1) = unat x - 1" using b by (rule unat_pred)
  then show ?thesis using a by (simp add: word_le_nat_alt)
qed

lemma size_le_capacity_upd:
  "objects t = (objects s)(this \<mapsto> q') \<Longrightarrow>
   size_le_capacity r t = (if r = this then m_Size q' \<le> m_Capacity q' else size_le_capacity r s)"
  by (simp add: size_le_capacity_def)

lemma capacity_at_least_upd:
  "objects t = (objects s)(this \<mapsto> q') \<Longrightarrow>
   capacity_at_least c r t = (if r = this then c \<le> m_Capacity q' else capacity_at_least c r s)"
  by (simp add: capacity_at_least_def)

lemma inv_Queue:
  assumes "size_le_capacity r s \<or> r = this"
  shows "on_exit (Queue this s) (size_le_capacity r)"
proof -
  from Queue_step [of this s]
  obtain s' where q: "Queue this s = Normal s'"
    and o: "objects s' = (objects s)(this \<mapsto>
        \<lparr>m_Container = length (store s), m_Size = 0, m_Capacity = 1\<rparr>)"
    by blast
  show ?thesis using assms by (auto simp: q on_exit_def size_le_capacity_upd [OF o])
qed

lemma inv_Queue_copy:
  assumes "size_le_capacity other s" and "size_le_capacity r s \<or> r = this"
  shows "on_exit (Queue_copy this other s) (size_le_capacity r)"
proof -
  from assms(1) obtain ot where ot: "objects s other = Some ot"
    and le: "m_Size ot \<le> m_Capacity ot"
    by (auto simp: size_le_capacity_def split: option.splits)
  show ?thesis
    using Queue_copy_objects [OF ot, of this] assms(2) le
    by (auto simp: on_exit_def size_le_capacity_upd split: outcome.splits)
qed

lemma inv_Queue_move:
  assumes "size_le_capacity other s" and "size_le_capacity r s \<or> r = this"
  shows "on_exit (Queue_move this other s) (size_le_capacity r)"
proof (cases "this = other")
  case True
  then show ?thesis by (simp add: Queue_move_def on_exit_def)
next
  case False
  from assms(1) obtain ot where ot: "objects s other = Some ot"
    and le: "m_Size ot \<le> m_Capacity ot"
    by (auto simp: size_le_capacity_def split: option.splits)
  from Queue_move_objects [OF ot False]
  obtain t where m: "Queue_move this other s = Normal t"
    and o: "objects t = (objects s)
             (this \<mapsto> \<lparr>m_Container = unat (m_Capacity ot), m_Size = m_Size ot,
                        m_Capacity = m_Capacity ot\<rparr>,
              other \<mapsto> ot\<lparr>m_Size := 0, m_Capacity := INITIAL_CAPACITY\<rparr>)"
    by blast
  show ?thesis
    using assms(2) le False
    by (auto simp: m on_exit_def size_le_capacity_def o INITIAL_CAPACITY_def)
qed

lemma inv_assign_copy:
  assumes "size_le_capacity other s" and "size_le_capacity r s \<or> r = this"
  shows "on_exit (assign_copy this other s) (size_le_capacity r)"
proof (cases "this = other")
  case True
  then show ?thesis using assms by (auto simp: assign_copy_def on_exit_def)
next
  case False
  from assms(1) obtain ot where ot: "objects s other = Some ot"
    and le: "m_Size ot \<le> m_Capacity ot"
    by (auto simp: size_le_capacity_def split: option.splits)
  show ?thesis
    using assign_copy_objects [OF ot False] assms(2) le
    by (auto simp: on_exit_def size_le_capacity_upd split: outcome.splits)
qed

lemma inv_assign_move:
  assumes "size_le_capacity other s" and "size_le_capacity r s \<or> r = this"
  shows "on_exit (assign_move this other s) (size_le_capacity r)"
proof (cases "this = other")
  case True
  then show ?thesis using assms by (auto simp: assign_move_def on_exit_def)
next
  case False
  from assms(1) obtain ot where ot: "objects s other = Some ot"
    and le: "m_Size ot \<le> m_Capacity ot"
    by (auto simp: size_le_capacity_def split: option.splits)
  show ?thesis
  proof (cases "objects s this")
    case None
    then show ?thesis using False by (simp add: assign_move_def on_exit_def)
  next
    case (Some q)
    from assign_move_objects [OF Some ot False]
    obtain t where m: "assign_move this other s = Normal t"
      and o: "objects t = (objects s)
             (this \<mapsto> q\<lparr>m_Container := unat (m_Capacity ot), m_Size := m_Size ot,
                         m_Capacity := m_Capacity ot\<rparr>,
              other \<mapsto> ot\<lparr>m_Size := 0, m_Capacity := INITIAL_CAPACITY\<rparr>)"
      by blast
    show ?thesis
      using assms(2) le False
      by (auto simp: m on_exit_def size_le_capacity_def o INITIAL_CAPACITY_def)
  qed
qed

lemma inv_push_with:
  assumes "size_le_capacity r s"
    and em: "\<And>d i s1. store_only s1 (emplace d i s1)"
  shows "on_exit (push_with emplace this s) (size_le_capacity r)"
proof (cases "objects s this")
  case None
  then show ?thesis by (simp add: push_with_def on_exit_def)
next
  case (Some q)
  show ?thesis
  proof (cases "push_with emplace this s")
    case (Normal t)
    show ?thesis
    proof (cases "m_Capacity q \<le> m_Size q")
      case True
      with push_with_objects [where emplace = emplace, OF Some em] Normal
      have gt: "m_Capacity q < m_Capacity q * 2"
        and o: "objects t = (objects s)(this \<mapsto>
                     \<lparr>m_Container = length (store s), m_Size = m_Size q + 1,
                      m_Capacity = m_Capacity q * 2\<rparr>)"
        by simp_all
      have "r = this \<Longrightarrow> m_Size q + 1 \<le> m_Capacity q * 2"
      proof -
        assume "r = this"
        then have "m_Size q \<le> m_Capacity q" using assms(1) Some by (simp add: size_le_capacity_def)
        then have "m_Size q = m_Capacity q" using True by simp
        then show ?thesis using gt by (simp add: word_succ_le)
      qed
      then show ?thesis
        using assms(1) Normal by (auto simp: on_exit_def size_le_capacity_upd [OF o])
    next
      case False
      with push_with_objects [where emplace = emplace, OF Some em] Normal
      have o: "objects t = (objects s)(this \<mapsto> q\<lparr>m_Size := m_Size q + 1\<rparr>)" by simp
      have "m_Size q + 1 \<le> m_Capacity q" using False by (simp add: word_succ_le)
      then show ?thesis
        using assms(1) Normal by (auto simp: on_exit_def size_le_capacity_upd [OF o])
    qed
  next
    case (Throws e t)
    with push_with_objects [where emplace = emplace, OF Some em] show ?thesis using assms(1) by (simp add: on_exit_def)
  next
    case Undefined
    then show ?thesis by (simp add: on_exit_def)
  qed
qed

lemma inv_Push:
  "size_le_capacity r s \<Longrightarrow> on_exit (Push this a s) (size_le_capacity r)"
  unfolding Push_push_with by (rule inv_push_with) (simp_all add: store_only_copy_into)

lemma inv_Push_rvalue:
  "size_le_capacity r s \<Longrightarrow> on_exit (Push_rvalue this a s) (size_le_capacity r)"
  unfolding Push_rvalue_push_with by (rule inv_push_with) (simp_all add: store_only_move_into)

lemma inv_Pop:
  assumes "size_le_capacity r s"
  shows "on_exit (Pop this s) (size_le_capacity r)"
proof (cases "objects s this")
  case None
  then show ?thesis by (simp add: Pop_def on_exit_def)
next
  case (Some q)
  show ?thesis
  proof (cases "m_Size q = 0")
    case True
    then show ?thesis using Some assms by (simp add: Pop_def on_exit_def)
  next
    case False
    have "r = this \<Longrightarrow> m_Size q - 1 \<le> m_Capacity q"
      using assms Some False by (simp add: size_le_capacity_def word_pred_le)
    then show ?thesis
      using Pop_objects [OF Some] False assms
      by (auto simp: on_exit_def size_le_capacity_upd split: outcome.splits)
  qed
qed

lemma inv_Clear:
  assumes "size_le_capacity r s"
  shows "on_exit (Clear this s) (size_le_capacity r)"
proof (cases "objects s this")
  case None
  then show ?thesis by (simp add: Clear_def on_exit_def)
next
  case (Some q)
  show ?thesis
    using Clear_objects [OF Some] assms
    by (auto simp: on_exit_def size_le_capacity_upd split: outcome.splits)
qed

lemma capacity_push_with:
  assumes "capacity_at_least c this s"
    and em: "\<And>d i s1. store_only s1 (emplace d i s1)"
  shows "on_exit (push_with emplace this s) (capacity_at_least c this)"
proof -
  from assms(1) obtain q where q: "objects s this = Some q" and le: "c \<le> m_Capacity q"
    by (auto simp: capacity_at_least_def split: option.splits)
  have "m_Capacity q < m_Capacity q * 2 \<Longrightarrow> c \<le> m_Capacity q * 2" using le by simp
  then show ?thesis
    using push_with_objects [where emplace = emplace, OF q em] assms(1) le
    by (auto simp: on_exit_def capacity_at_least_upd split: outcome.splits if_splits)
qed

lemma capacity_Push:
  "capacity_at_least c this s \<Longrightarrow> on_exit (Push this a s) (capacity_at_least c this)"
  unfolding Push_push_with by (rule capacity_push_with) (simp_all add: store_only_copy_into)

lemma capacity_Push_rvalue:
  "capacity_at_least c this s \<Longrightarrow> on_exit (Push_rvalue this a s) (capacity_at_least c this)"
  unfolding Push_rvalue_push_with by (rule capacity_push_with) (simp_all add: store_only_move_into)

lemma capacity_Pop:
  assumes "capacity_at_least c this s"
  shows "on_exit (Pop this s) (capacity_at_least c this)"
proof -
  from assms obtain q where q: "objects s this = Some q" and le: "c \<le> m_Capacity q"
    by (auto simp: capacity_at_least_def split: option.splits)
  show ?thesis
    using Pop_objects [OF q] assms le
    by (auto simp: on_exit_def capacity_at_least_def split: outcome.splits if_splits)
qed

lemma capacity_Clear:
  assumes "capacity_at_least c this s"
  shows "on_exit (Clear this s) (capacity_at_least c this)"
proof -
  from assms obtain q where q: "objects s this = Some q" and le: "c \<le> m_Capacity q"
    by (auto simp: capacity_at_least_def split: option.splits)
  show ?thesis
    using Clear_objects [OF q] le
    by (auto simp: on_exit_def capacity_at_least_upd split: outcome.splits)
qed

section \<open>The blocks a call leaves as they were\<close>

lemma on_exit_mono: "on_exit r Q \<Longrightarrow> (\<And>t. Q t \<Longrightarrow> R t) \<Longrightarrow> on_exit r R"
  by (cases r) (simp_all add: on_exit_def)

lemma on_exit_and_then:
  assumes "on_exit r Q"
    and "\<And>s1. r = Normal s1 \<Longrightarrow> Q s1 \<Longrightarrow> on_exit (f s1) R"
    and "\<And>e s1. r = Throws e s1 \<Longrightarrow> Q s1 \<Longrightarrow> R s1"
  shows "on_exit (and_then r f) R"
  using assms by (cases r) (simp_all add: on_exit_def and_then_def)

lemma kept_refl: "kept P s s"
  by (simp add: kept_def)

lemma kept_trans:
  assumes "kept P s s1" and "kept P1 s1 t"
    and "\<And>p. p \<in> P1 \<Longrightarrow> p \<in> P \<or> length (store s) \<le> p"
  shows "kept P s t"
  unfolding kept_def
proof (intro conjI allI impI)
  show "length (store s) \<le> length (store t)" using assms(1,2) by (simp add: kept_def)
next
  fix p
  assume a: "p < length (store s) \<and> p \<notin> P"
  then have "p \<notin> P1" using assms(3) [of p] by auto
  moreover have "p < length (store s1)" using a assms(1) by (simp add: kept_def)
  ultimately have "block t p = block s1 p" using assms(2) by (simp add: kept_def)
  then show "block t p = block s p" using a assms(1) by (simp add: kept_def)
qed

lemma kept_same: "kept P s s1 \<Longrightarrow> kept P s1 t \<Longrightarrow> kept P s t"
  by (rule kept_trans) auto

lemma kept_set_block: "p \<in> P \<Longrightarrow> kept P s (set_block p b s)"
  by (simp add: kept_def)

lemma kept_update_object: "kept P s t \<Longrightarrow> kept P s (update_object this f t)"
  by (simp add: kept_def)

lemma kept_construct_at: "p \<in> P \<Longrightarrow> on_exit (construct_at p i v s) (kept P s)"
  by (simp add: construct_at_def on_exit_def kept_set_block split: option.splits)

lemma kept_destroy_at: "p \<in> P \<Longrightarrow> on_exit (destroy_at p i s) (kept P s)"
  by (simp add: destroy_at_def on_exit_def kept_set_block split: option.splits)

lemma kept_operator_delete: "p \<in> P \<Longrightarrow> on_exit (operator_delete p n s) (kept P s)"
  by (simp add: operator_delete_def on_exit_def kept_set_block split: option.splits)

lemma kept_copy_construct: "dst \<in> P \<Longrightarrow> on_exit (copy_construct dst i src j s) (kept P s)"
  by (simp add: copy_construct_def kept_construct_at split: option.splits) (simp add: on_exit_def)

lemma kept_move_construct:
  assumes "dst \<in> P" and "src \<in> P"
  shows "on_exit (move_construct dst i src j s) (kept P s)"
proof -
  have "on_exit (construct_at dst i v (set_block src b s)) (kept P s)" for v b
    by (rule on_exit_mono [OF kept_construct_at [OF assms(1)]])
      (rule kept_same [OF kept_set_block [OF assms(2)]])
  then show ?thesis
    by (simp add: move_construct_def split: option.splits) (simp add: on_exit_def)
qed

lemma kept_step:
  assumes "on_exit r (kept P s)" and "\<And>s1. on_exit (f s1) (kept P s1)"
  shows "on_exit (and_then r f) (kept P s)"
proof (rule on_exit_and_then [OF assms(1)])
  fix s1
  assume "kept P s s1"
  then have "kept P s1 t \<Longrightarrow> kept P s t" for t by (rule kept_same)
  then show "on_exit (f s1) (kept P s)" by (rule on_exit_mono [OF assms(2) [of s1]])
qed

lemma kept_destroy_loop: "p \<in> P \<Longrightarrow> on_exit (destroy_loop p js s) (kept P s)"
proof (induction js arbitrary: s)
  case Nil
  show ?case by (simp add: on_exit_def kept_refl)
next
  case (Cons i js)
  show ?case
    unfolding destroy_loop.simps
    by (rule kept_step [OF kept_destroy_at [OF Cons.prems]]) (rule Cons.IH [OF Cons.prems])
qed

lemma kept_copy_loop: "dst \<in> P \<Longrightarrow> on_exit (copy_loop dst src js s) (kept P s)"
proof (induction js arbitrary: s)
  case Nil
  show ?case by (simp add: on_exit_def kept_refl)
next
  case (Cons i js)
  show ?case
    unfolding copy_loop.simps
    by (rule kept_step [OF kept_copy_construct [OF Cons.prems]]) (rule Cons.IH [OF Cons.prems])
qed

lemma kept_shift_loop: "p \<in> P \<Longrightarrow> on_exit (shift_loop p js s) (kept P s)"
proof (induction js arbitrary: s)
  case Nil
  show ?case by (simp add: on_exit_def kept_refl)
next
  case (Cons i js)
  show ?case
    unfolding shift_loop.simps
    by (rule kept_step [OF kept_destroy_at [OF Cons.prems]],
        rule kept_step [OF kept_move_construct [OF Cons.prems Cons.prems]],
        rule Cons.IH [OF Cons.prems])
qed

lemma kept_relocate_loop:
  "new \<in> P \<Longrightarrow> old \<in> P \<Longrightarrow> on_exit (relocate_loop new old js s) (kept P s)"
proof (induction js arbitrary: s)
  case Nil
  show ?case by (simp add: on_exit_def kept_refl)
next
  case (Cons i js)
  show ?case
    unfolding relocate_loop.simps
    by (rule kept_step [OF kept_move_construct [OF Cons.prems]],
        rule kept_step [OF kept_destroy_at [OF Cons.prems(2)]],
        rule Cons.IH [OF Cons.prems])
qed

lemma kept_copy_into: "dst \<in> P \<Longrightarrow> on_exit (copy_into a dst i s) (kept P s)"
  by (cases a) (simp_all add: copy_into_def kept_construct_at kept_copy_construct)

lemma kept_move_into:
  "dst \<in> P \<Longrightarrow> (\<And>p j. a = Ref p j \<Longrightarrow> p \<in> P) \<Longrightarrow> on_exit (move_into a dst i s) (kept P s)"
  by (cases a) (simp_all add: move_into_def kept_construct_at kept_move_construct)


lemma kept_mono: "kept P s t \<Longrightarrow> P \<subseteq> P' \<Longrightarrow> kept P' s t"
  by (auto simp: kept_def)

lemma kept_operator_new: "operator_new n s = (p, s1) \<Longrightarrow> kept P s s1"
  by (auto simp: operator_new_def kept_def block_def nth_append)

lemma Clear_kept:
  assumes "objects s this = Some q"
  shows "on_exit (Clear this s) (kept {m_Container q} s)"
proof -
  have c: "Clear this s =
             and_then (destroy_loop (m_Container q) [0..<unat (m_Size q)] s)
               (\<lambda>s1. Normal (update_object this (\<lambda>q. q\<lparr>m_Size := 0\<rparr>) s1))"
    using assms by (simp add: Clear_def)
  show ?thesis
    unfolding c
    by (rule on_exit_and_then [OF kept_destroy_loop [of "m_Container q"]])
      (simp_all add: on_exit_def kept_update_object)
qed

lemma Pop_kept:
  assumes "objects s this = Some q"
  shows "on_exit (Pop this s) (kept {m_Container q} s)"
proof (cases "m_Size q = 0")
  case True
  then show ?thesis using assms by (simp add: Pop_def on_exit_def kept_refl)
next
  case False
  let ?P = "{m_Container q}"
  let ?s1 = "update_object this (\<lambda>q. q\<lparr>m_Size := m_Size q - 1\<rparr>) s"
  have pop: "Pop this s =
               and_then (shift_loop (m_Container q) [0..<unat (m_Size q - 1)] ?s1)
                 (destroy_at (m_Container q) (unat (m_Size q - 1)))"
    using assms False by (simp add: Pop_def)
  have k1: "kept ?P s ?s1" by (rule kept_update_object [OF kept_refl])
  have "on_exit (Pop this s) (kept ?P ?s1)"
    unfolding pop
    by (rule kept_step [OF kept_shift_loop]) (simp_all add: kept_destroy_at)
  then show ?thesis
    by (rule on_exit_mono) (rule kept_same [OF k1])
qed

lemma Reallocate_kept:
  assumes "objects s this = Some q"
  shows "on_exit (Reallocate this n s) (kept {m_Container q} s)"
proof (cases "n \<le> m_Capacity q")
  case True
  then show ?thesis using assms by (simp add: Reallocate_def on_exit_def kept_refl)
next
  case False
  let ?old = "m_Container q"
  let ?new = "length (store s)"
  let ?s1 = "s\<lparr>store := store s @ [Some (replicate (unat n) Raw)]\<rparr>"
  have r: "Reallocate this n s =
             and_then (relocate_loop ?new ?old [0..<unat (m_Size q)] ?s1)
               (\<lambda>s2. and_then (operator_delete ?old (unat (m_Capacity q)) s2)
                 (\<lambda>s3. Normal
                    (update_object this (\<lambda>q. q\<lparr>m_Capacity := n\<rparr>)
                       (update_object this (\<lambda>q. q\<lparr>m_Container := ?new\<rparr>) s3))))"
    using assms False by (simp add: Reallocate_def operator_new_def)
  have k1: "kept {?old} s ?s1"
    by (rule kept_operator_new [of "unat n" s ?new]) (simp add: operator_new_def)
  have "on_exit (Reallocate this n s) (kept {?new, ?old} ?s1)"
    unfolding r
  proof (rule kept_step [OF kept_relocate_loop], simp, simp)
    fix s2 :: "'a state"
    show "on_exit (and_then (operator_delete ?old (unat (m_Capacity q)) s2)
                 (\<lambda>s3. Normal
                    (update_object this (\<lambda>q. q\<lparr>m_Capacity := n\<rparr>)
                       (update_object this (\<lambda>q. q\<lparr>m_Container := ?new\<rparr>) s3))))
            (kept {?new, ?old} s2)"
      by (rule on_exit_and_then [OF kept_operator_delete [of ?old]])
        (simp_all add: on_exit_def kept_update_object)
  qed
  then show ?thesis
  proof (rule on_exit_mono)
    fix t
    assume "kept {?new, ?old} ?s1 t"
    with k1 show "kept {?old} s t" by (rule kept_trans) auto
  qed
qed

lemma push_with_kept:
  assumes "objects s this = Some q"
    and em: "\<And>d i s1. on_exit (emplace d i s1) (kept (insert d R) s1)"
  shows "on_exit (push_with emplace this s) (kept (insert (m_Container q) R) s)"
proof -
  let ?P = "insert (m_Container q) R"
  have tail: "on_exit (and_then (emplace d i s1)
                 (\<lambda>s2. Normal (update_object this (\<lambda>q. q\<lparr>m_Size := m_Size q + 1\<rparr>) s2)))
               (kept (insert d R) s1)" for d i s1
    by (rule on_exit_and_then [OF em]) (simp_all add: on_exit_def kept_update_object)
  show ?thesis
  proof (cases "m_Capacity q \<le> m_Size q")
    case False
    then have "push_with emplace this s =
                 and_then (emplace (m_Container q) (unat (m_Size q)) s)
                   (\<lambda>s2. Normal (update_object this (\<lambda>q. q\<lparr>m_Size := m_Size q + 1\<rparr>) s2))"
      using assms(1) by (simp add: push_with_def and_then_def)
    then show ?thesis using tail [of "m_Container q" "unat (m_Size q)" s] by simp
  next
    case True
    show ?thesis
    proof (cases "Reallocate this (m_Capacity q * 2) s")
      case (Normal s1)
      with Reallocate_objects [OF assms(1), of "m_Capacity q * 2"]
      have o1: "objects s1 = (objects s)(this \<mapsto>
                   q\<lparr>m_Container := length (store s), m_Capacity := m_Capacity q * 2\<rparr>)"
        by simp
      from Reallocate_kept [OF assms(1), of "m_Capacity q * 2"] Normal
      have k1: "kept {m_Container q} s s1" by (simp add: on_exit_def)
      let ?q1 = "q\<lparr>m_Container := length (store s), m_Capacity := m_Capacity q * 2\<rparr>"
      have q1: "objects s1 this = Some ?q1" by (simp add: o1)
      have p: "push_with emplace this s =
              and_then (emplace (length (store s)) (unat (m_Size q)) s1)
                (\<lambda>s2. Normal (update_object this (\<lambda>q. q\<lparr>m_Size := m_Size q + 1\<rparr>) s2))"
        using assms(1) True Normal q1 by (simp add: push_with_def and_then_def)
      have "kept ?P s t" if "kept (insert (length (store s)) R) s1 t" for t
        using kept_mono [OF k1, of ?P] that by (rule kept_trans) auto
      then show ?thesis
        unfolding p by (rule on_exit_mono [OF tail])
    next
      case (Throws e s1)
      with Reallocate_objects [OF assms(1), of "m_Capacity q * 2"]
      show ?thesis
        using assms(1) True by (simp add: push_with_def and_then_def on_exit_def kept_refl)
    next
      case Undefined
      then show ?thesis
        using assms(1) True by (simp add: push_with_def and_then_def on_exit_def)
    qed
  qed
qed

lemma Push_kept:
  assumes "objects s this = Some q"
  shows "on_exit (Push this a s) (kept {m_Container q} s)"
  unfolding Push_push_with
  by (rule push_with_kept [OF assms, where R = "{}"]) (simp add: kept_copy_into)

lemma Push_rvalue_kept:
  assumes "objects s this = Some q"
  shows "on_exit (Push_rvalue this a s) (kept (insert (m_Container q) {p. \<exists>j. a = Ref p j}) s)"
  unfolding Push_rvalue_push_with
  by (rule push_with_kept [OF assms]) (simp add: kept_move_into)

section \<open>Calls that hand over no reference\<close>

lemma drive_fifo:
  assumes "queue_at this xs cap s" and "length xs + length cs < 2 ^ 63"
    and "list_all call_by_value cs"
  shows "\<exists>fronts rest cap' s'. drive this cs s = Some (fronts, s') \<and>
           queue_at this rest cap' s' \<and> fronts @ rest = xs @ pushed cs"
  using assms
proof (induction cs arbitrary: xs cap s)
  case Nil
  then show ?case by auto
next
  case (Cons c cs)
  have bv: "list_all call_by_value cs" using Cons.prems(3) by simp
  show ?case
  proof (cases c)
    case (CallPush a)
    then obtain v where a: "a = Outside v" using Cons.prems(3) by (cases a) simp_all
    have "length xs < 2 ^ 63" using Cons.prems(2) by simp
    from Push_step [OF Cons.prems(1) this, of v]
    obtain s1 cap1 where p: "Push this (Outside v) s = Normal s1" and at: "queue_at this (xs @ [v]) cap1 s1"
      by blast
    have "length (xs @ [v]) + length cs < 2 ^ 63" using Cons.prems(2) by simp
    from Cons.IH [OF at this bv]
    obtain fronts rest cap' s' where "drive this cs s1 = Some (fronts, s')"
      and "queue_at this rest cap' s'" and "fronts @ rest = (xs @ [v]) @ pushed cs"
      by blast
    then show ?thesis using CallPush a p by auto
  next
    case CallPop
    show ?thesis
    proof (cases xs)
      case Nil
      have e: "Empty this s = Some True" using queue_at_Empty [OF Cons.prems(1)] Nil by simp
      have p: "Pop this s = Normal s" using Pop_empty Cons.prems(1) Nil by blast
      have "length xs + length cs < 2 ^ 63" using Cons.prems(2) by simp
      from Cons.IH [OF Cons.prems(1) this bv]
      obtain fronts rest cap' s' where "drive this cs s = Some (fronts, s')"
        and "queue_at this rest cap' s'" and "fronts @ rest = xs @ pushed cs"
        by blast
      then show ?thesis using CallPop e p by auto
    next
      case (Cons x xs')
      have at: "queue_at this (x # xs') cap s" using Cons.prems(1) Cons by simp
      have e: "Empty this s = Some False" using queue_at_Empty [OF at] by simp
      have f: "Front this s = Some x" using at by (rule queue_at_Front)
      from at obtain q where q: "objects s this = Some q" by (rule queue_at_object)
      from Pop_step [OF at q]
      obtain s1 where p: "Pop this s = Normal s1" and at1: "queue_at this xs' cap s1"
        by blast
      have "length xs' + length cs < 2 ^ 63" using Cons.prems(2) Cons by simp
      from Cons.IH [OF at1 this bv]
      obtain fronts rest cap' s' where "drive this cs s1 = Some (fronts, s')"
        and "queue_at this rest cap' s'" and "fronts @ rest = xs' @ pushed cs"
        by blast
      then show ?thesis using CallPop e f p Cons by auto
    qed
  qed
qed


lemma Queue_copy_step:
  assumes "queue_at other xs cap s" and "objects s other = Some ot" and "this \<noteq> other"
  shows "\<exists>s'. Queue_copy this other s = Normal s' \<and>
           objects s' = (objects s)(this \<mapsto>
              \<lparr>m_Container = length (store s), m_Size = m_Size ot, m_Capacity = m_Capacity ot\<rparr>) \<and>
           store s' = store s @ [Some (map Live xs @ replicate (cap - length xs) Raw)]"
proof -
  from assms(1) obtain q0 where "objects s other = Some q0" and "unat (m_Capacity q0) = cap"
    and "unat (m_Size q0) = length xs" and "length xs \<le> cap"
    and "block s (m_Container q0) = Some (map Live xs @ replicate (cap - length xs) Raw)"
    and "m_Container q0 < length (store s)"
    by (rule queue_at_object)
  then have c: "unat (m_Capacity ot) = cap" and n: "unat (m_Size ot) = length xs"
    and le: "length xs \<le> cap"
    and b: "block s (m_Container ot) = Some (map Live xs @ replicate (cap - length xs) Raw)"
    and lt: "m_Container ot < length (store s)"
    using assms(2) by simp_all
  let ?dst = "length (store s)"
  let ?src = "m_Container ot"
  let ?s2 = "s\<lparr>store := store s @ [Some (replicate cap Raw)],
               objects := (objects s)(this \<mapsto>
                 \<lparr>m_Container = ?dst, m_Size = m_Size ot, m_Capacity = m_Capacity ot\<rparr>)\<rparr>"
  have bs: "block ?s2 ?src = Some ([] @ map Live xs @ replicate (cap - length xs) Raw)"
    using b lt by (simp add: block_def nth_append)
  have bd: "block ?s2 ?dst =
              Some ([] @ replicate (length xs) Raw @ replicate (cap - length xs) Raw)"
    using le by (simp add: block_def replicate_add [symmetric])
  have ne: "?dst \<noteq> ?src" using lt by simp
  from copy_loop_range [OF bs bd ne]
  have "copy_loop ?dst ?src [0..<unat (m_Size ot)] ?s2 =
          Normal (set_block ?dst (Some (map Live xs @ replicate (cap - length xs) Raw)) ?s2)"
    using n by simp
  then show ?thesis
    using assms(2,3) c by (simp add: Queue_copy_def operator_new_def)
qed


lemma apart_sym: "apart a b s \<Longrightarrow> apart b a s"
  by (auto simp: apart_def split: option.splits)

lemma mutate_by_value:
  assumes "queue_at a xs ca t" and "by_value m"
  shows "mutate a m t \<noteq> Undefined \<and>
         on_exit (mutate a m t) (\<lambda>t'. \<exists>xs' ca'. queue_at a xs' ca' t')"
proof -
  from assms(1) obtain qa where qa: "objects t a = Some qa" and le: "length xs \<le> ca"
    by (rule queue_at_object)
  have stay: "\<exists>xs' ca'. queue_at a xs' ca' t" using assms(1) by blast
  have push: "Push a (Outside v) t \<noteq> Undefined \<and>
         on_exit (Push a (Outside v) t) (\<lambda>t'. \<exists>xs' ca'. queue_at a xs' ca' t')" for v
  proof -
    consider "length xs < ca" | "length xs = ca" "ca < 2 ^ 63" | "length xs = ca" "2 ^ 63 \<le> ca"
      using le by fastforce
    then show ?thesis
    proof cases
      case 1
      from Push_room_step [OF assms(1) qa 1, of v]
      obtain t' where "Push a (Outside v) t = Normal t'" and "queue_at a (xs @ [v]) ca t'"
        by blast
      then show ?thesis by (auto simp: on_exit_def)
    next
      case 2
      from Push_full_step [OF assms(1) qa 2, of v]
      obtain t' where "Push a (Outside v) t = Normal t'"
        and "queue_at a (xs @ [v]) (2 * ca) t'"
        by blast
      then show ?thesis by (auto simp: on_exit_def)
    next
      case 3
      from Push_wraps [OF assms(1) qa 3, of v] stay show ?thesis
        by (simp add: on_exit_def)
    qed
  qed
  show ?thesis
  proof (cases m)
    case (DoPush arg)
    then obtain v where "arg = Outside v" using assms(2) by (cases arg) simp_all
    then show ?thesis using DoPush push [of v] by simp
  next
    case (DoPushMove arg)
    then obtain v where "arg = Outside v" using assms(2) by (cases arg) simp_all
    then show ?thesis using DoPushMove push [of v] by (simp add: Push_rvalue_same)
  next
    case DoPop
    show ?thesis
    proof (cases xs)
      case Nil
      then have "Pop a t = Normal t" using Pop_empty assms(1) by blast
      then show ?thesis using DoPop stay by (simp add: on_exit_def)
    next
      case (Cons x xs')
      then have at0: "queue_at a (x # xs') ca t" using assms(1) by simp
      from Pop_step [OF at0 qa]
      obtain t' where "Pop a t = Normal t'" and "queue_at a xs' ca t'" by blast
      then show ?thesis using DoPop by (auto simp: on_exit_def)
    qed
  next
    case DoClear
    from Clear_step [OF assms(1) qa]
    obtain t' where "Clear a t = Normal t'" and "queue_at a [] ca t'" by blast
    then show ?thesis using DoClear by (auto simp: on_exit_def)
  qed
qed

lemma mutate_all_by_value:
  assumes "queue_at a xs ca t" and "list_all by_value ms"
  shows "mutate_all a ms t \<noteq> Undefined"
  using assms
proof (induction ms arbitrary: xs ca t)
  case Nil
  then show ?case by simp
next
  case (Cons m ms)
  have bm: "by_value m" and bms: "list_all by_value ms" using Cons.prems(2) by simp_all
  note step = mutate_by_value [OF Cons.prems(1) bm]
  show ?case
  proof (cases "mutate a m t")
    case (Normal t1)
    with step obtain xs1 ca1 where "queue_at a xs1 ca1 t1" by (auto simp: on_exit_def)
    from Cons.IH [OF this bms] show ?thesis using Normal by (simp add: and_then_def)
  next
    case (Throws e t1)
    then show ?thesis by (simp add: and_then_def)
  next
    case Undefined
    with step show ?thesis by simp
  qed
qed

section \<open>A queue that another queue's calls leave alone\<close>

lemma untouched_after:
  assumes "untouched this other ot B s" and "this \<noteq> other" and "objects s this = Some q"
    and "objects t = (objects s)(this \<mapsto> q')"
    and "m_Container q' = m_Container q \<or> m_Container q' = length (store s)"
    and "kept P s t" and "m_Container ot \<notin> P"
  shows "untouched this other ot B t"
proof -
  have o: "objects s other = Some ot" and b: "block s (m_Container ot) = Some B"
    and ne: "m_Container q \<noteq> m_Container ot"
    using assms(1,3) by (simp_all add: untouched_def)
  have lt: "m_Container ot < length (store s)" using b by (rule block_Some_less)
  have "block t (m_Container ot) = block s (m_Container ot)"
    using assms(6,7) lt by (simp add: kept_def)
  moreover have "m_Container q' \<noteq> m_Container ot" using assms(5) ne lt by auto
  ultimately show ?thesis
    using o b assms(2) by (simp add: untouched_def assms(4))
qed

lemma mutate_untouched:
  assumes "untouched this other ot B s" and "this \<noteq> other"
    and "\<not> moves_from (m_Container ot) m"
  shows "on_exit (mutate this m s) (untouched this other ot B)"
proof (cases "objects s this")
  case None
  then show ?thesis
    by (cases m) (simp_all add: Push_def Push_rvalue_def Pop_def Clear_def on_exit_def)
next
  case (Some q)
  note after = untouched_after [OF assms(1,2) Some]
  have ne: "m_Container ot \<notin> {m_Container q}"
    using assms(1) Some by (simp add: untouched_def)
  show ?thesis
  proof (cases m)
    case (DoPush a)
    show ?thesis
    proof (cases "Push this a s")
      case (Normal t)
      from Push_kept [OF Some, of a] Normal have k: "kept {m_Container q} s t"
        by (simp add: on_exit_def)
      from Push_objects [OF Some, of a] Normal
      obtain q' where "objects t = (objects s)(this \<mapsto> q')"
        and "m_Container q' = m_Container q \<or> m_Container q' = length (store s)"
        by (auto split: if_splits)
      from after [OF this k ne] show ?thesis using DoPush Normal by (simp add: on_exit_def)
    next
      case (Throws e t)
      with Push_objects [OF Some, of a] show ?thesis
        using DoPush assms(1) by (simp add: on_exit_def)
    next
      case Undefined
      then show ?thesis using DoPush by (simp add: on_exit_def)
    qed
  next
    case (DoPushMove a)
    let ?P = "insert (m_Container q) {p. \<exists>j. a = Ref p j}"
    have ne': "m_Container ot \<notin> ?P"
      using ne assms(3) DoPushMove by (cases a) auto
    show ?thesis
    proof (cases "Push_rvalue this a s")
      case (Normal t)
      from Push_rvalue_kept [OF Some, of a] Normal have k: "kept ?P s t"
        by (simp add: on_exit_def)
      from Push_rvalue_objects [OF Some, of a] Normal
      obtain q' where "objects t = (objects s)(this \<mapsto> q')"
        and "m_Container q' = m_Container q \<or> m_Container q' = length (store s)"
        by (auto split: if_splits)
      from after [OF this k ne'] show ?thesis
        using DoPushMove Normal by (simp add: on_exit_def)
    next
      case (Throws e t)
      with Push_rvalue_objects [OF Some, of a] show ?thesis
        using DoPushMove assms(1) by (simp add: on_exit_def)
    next
      case Undefined
      then show ?thesis using DoPushMove by (simp add: on_exit_def)
    qed
  next
    case DoPop
    show ?thesis
    proof (cases "Pop this s")
      case (Normal t)
      from Pop_kept [OF Some] Normal have k: "kept {m_Container q} s t"
        by (simp add: on_exit_def)
      have same: "(objects s)(this \<mapsto> q) = objects s" using Some by (rule fun_upd_idem)
      from Pop_objects [OF Some] Normal
      have "objects t = (objects s)(this \<mapsto> q) \<or>
            objects t = (objects s)(this \<mapsto> q\<lparr>m_Size := m_Size q - 1\<rparr>)"
        by (cases "m_Size q = 0") (simp_all add: same)
      then obtain q' where "objects t = (objects s)(this \<mapsto> q')"
        and "m_Container q' = m_Container q \<or> m_Container q' = length (store s)"
        by auto
      from after [OF this k ne] show ?thesis using DoPop Normal by (simp add: on_exit_def)
    next
      case (Throws e t)
      with Pop_objects [OF Some] show ?thesis by simp
    next
      case Undefined
      then show ?thesis using DoPop by (simp add: on_exit_def)
    qed
  next
    case DoClear
    show ?thesis
    proof (cases "Clear this s")
      case (Normal t)
      from Clear_kept [OF Some] Normal have k: "kept {m_Container q} s t"
        by (simp add: on_exit_def)
      from Clear_objects [OF Some] Normal
      obtain q' where "objects t = (objects s)(this \<mapsto> q')"
        and "m_Container q' = m_Container q \<or> m_Container q' = length (store s)"
        by auto
      from after [OF this k ne] show ?thesis using DoClear Normal by (simp add: on_exit_def)
    next
      case (Throws e t)
      with Clear_objects [OF Some] show ?thesis by simp
    next
      case Undefined
      then show ?thesis using DoClear by (simp add: on_exit_def)
    qed
  qed
qed

lemma mutate_all_untouched:
  assumes "untouched this other ot B s" and "this \<noteq> other"
    and "list_all (\<lambda>m. \<not> moves_from (m_Container ot) m) ms"
  shows "on_exit (mutate_all this ms s) (untouched this other ot B)"
  using assms(1,3)
proof (induction ms arbitrary: s)
  case Nil
  then show ?case by (simp add: on_exit_def)
next
  case (Cons m ms)
  have nm: "\<not> moves_from (m_Container ot) m"
    and nms: "list_all (\<lambda>m. \<not> moves_from (m_Container ot) m) ms"
    using Cons.prems(2) by simp_all
  show ?case
    unfolding mutate_all.simps
  proof (rule on_exit_and_then [OF mutate_untouched [OF Cons.prems(1) assms(2) nm]])
    fix s1
    assume "untouched this other ot B s1"
    then show "on_exit (mutate_all this ms s1) (untouched this other ot B)"
      using nms by (rule Cons.IH)
  qed
qed

section \<open>The example states are states of the program\<close>

lemma state_eqI: "objects s = objects t \<Longrightarrow> store s = store t \<Longrightarrow> s = (t :: 'a state)"
  by (cases s, cases t) simp

lemma one_pushed_reached: "and_then (Queue 0 no_queues) (Push 0 (Outside 1)) = Normal one_pushed"
proof -
  from Queue_step [of 0 no_queues]
  obtain s0 where q: "Queue 0 no_queues = Normal s0" and at: "queue_at 0 [] 1 s0"
    and o: "objects s0 = (objects no_queues)(0 \<mapsto>
        \<lparr>m_Container = length (store no_queues), m_Size = 0, m_Capacity = 1\<rparr>)"
    and st: "store s0 = store no_queues @ [Some [Raw]]"
    by blast
  have q0: "objects s0 0 = Some \<lparr>m_Container = 0, m_Size = 0, m_Capacity = 1\<rparr>"
    by (simp add: o no_queues_def)
  from Push_room_step [OF at q0, of 1]
  obtain s1 where p: "Push 0 (Outside 1) s0 = Normal s1"
    and o1: "objects s1 = (objects s0)(0 \<mapsto>
               \<lparr>m_Container = 0, m_Size = 0, m_Capacity = 1\<rparr>\<lparr>m_Size := 0 + 1\<rparr>)"
    and st1: "store s1 = (store s0)[0 :=
               Some (map Live ([] @ [1]) @ replicate (1 - Suc (length ([] :: int list))) Raw)]"
    by auto
  have "s1 = one_pushed"
    by (rule state_eqI) (simp_all add: o1 st1 o st one_pushed_def no_queues_def)
  then show ?thesis using q p by (simp add: and_then_def)
qed

lemma three_pushed_reached: "and_then (Push 0 (Outside 2) one_pushed) (Push 0 (Outside 3)) = Normal three_pushed"
proof -
  have at1: "queue_at 0 [1] 1 one_pushed" by code_simp
  have q1: "objects one_pushed 0 = Some \<lparr>m_Container = 0, m_Size = 1, m_Capacity = 1\<rparr>"
    by (simp add: one_pushed_def)
  from Push_full_step [OF at1 q1, of 2]
  obtain s2 where p2: "Push 0 (Outside 2) one_pushed = Normal s2" and at2: "queue_at 0 [1, 2] 2 s2"
    and o2: "objects s2 = (objects one_pushed)(0 \<mapsto>
               \<lparr>m_Container = 1, m_Size = 2, m_Capacity = 2\<rparr>)"
    and st2: "store s2 = [None, Some [Live 1, Live 2]]"
    by (auto simp: one_pushed_def)
  have q2: "objects s2 0 = Some \<lparr>m_Container = 1, m_Size = 2, m_Capacity = 2\<rparr>"
    by (simp add: o2)
  from Push_full_step [OF at2 q2, of 3]
  obtain s3 where p3: "Push 0 (Outside 3) s2 = Normal s3"
    and o3: "objects s3 = (objects s2)(0 \<mapsto>
               \<lparr>m_Container = Suc (Suc 0), m_Size = 3, m_Capacity = 4\<rparr>)"
    and st3: "store s3 = [None, None, Some [Live 1, Live 2, Live 3, Raw]]"
    by (auto simp: st2)
  have "s3 = three_pushed"
    by (rule state_eqI) (simp_all add: o3 st3 o2 three_pushed_def one_pushed_def numeral_2_eq_2)
  then show ?thesis using p2 p3 by (simp add: and_then_def)
qed

lemma two_queues_reached: "Queue 1 three_pushed = Normal two_queues"
proof -
  from Queue_step [of 1 three_pushed]
  obtain s where q: "Queue 1 three_pushed = Normal s"
    and o: "objects s = (objects three_pushed)(1 \<mapsto>
        \<lparr>m_Container = length (store three_pushed), m_Size = 0, m_Capacity = 1\<rparr>)"
    and st: "store s = store three_pushed @ [Some [Raw]]"
    by blast
  have "s = two_queues"
    by (rule state_eqI) (simp_all add: o st three_pushed_def two_queues_def numeral_3_eq_3)
  then show ?thesis using q by simp
qed

section \<open>What the calls that hand over no reference achieve\<close>

lemma by_value_calls_are_FIFO:
  assumes "length cs < 2 ^ 63" and "list_all call_by_value cs"
  shows "\<exists>s0 fronts rest cap s'. Queue this s = Normal s0 \<and>
           drive this cs s0 = Some (fronts, s') \<and> queue_at this rest cap s' \<and>
           fronts @ rest = pushed cs"
proof -
  from Queue_step [of this s]
  obtain s0 where c: "Queue this s = Normal s0" and at: "queue_at this [] 1 s0"
    by blast
  have "length ([] :: 'a list) + length cs < 2 ^ 63" using assms by simp
  from drive_fifo [OF at this assms(2)] c show ?thesis by auto
qed

lemma Push_by_value_appends:
  assumes "queue_at this xs cap s" and "length xs < 2 ^ 63"
  shows "\<exists>s'. Push this (Outside v) s = Normal s' \<and> Push_rvalue this (Outside v) s = Normal s' \<and>
           queue_at this (xs @ [v]) (if length xs = cap then 2 * cap else cap) s' \<and>
           Back this s' = Some v \<and>
           Size this s' = map_option (\<lambda>n. n + 1) (Size this s) \<and>
           (if length xs = cap
            then Capacity this s' = map_option (\<lambda>c. c * 2) (Capacity this s) \<and>
                 map_option m_Container (objects s' this) = Some (length (store s)) \<and>
                 length (store s') = Suc (length (store s))
            else Capacity this s' = Capacity this s \<and>
                 map_option m_Container (objects s' this) =
                   map_option m_Container (objects s this) \<and>
                 length (store s') = length (store s))"
proof -
  from assms(1) obtain q where q: "objects s this = Some q"
    by (auto simp: queue_at_def split: option.splits)
  have sz: "unat (m_Size q) = length xs" and c: "unat (m_Capacity q) = cap"
    and le: "length xs \<le> cap" and pos: "0 < cap"
    and b: "block s (m_Container q) = Some (map Live xs @ replicate (cap - length xs) Raw)"
    using assms(1) q by (simp_all add: queue_at_def)
  have lt: "m_Container q < length (store s)" using b by (rule block_Some_less)
  have sz1: "unat (m_Size q + 1) = Suc (length xs)"
    using sz assms(2) by (simp add: unat_succ)
  show ?thesis
  proof (cases "length xs = cap")
    case True
    then have small: "cap < 2 ^ 63" using assms(2) by simp
    from Push_full [OF assms(1) q True small, of v]
    obtain s' where p: "Push this (Outside v) s = Normal s'"
      and o: "objects s' = (objects s)(this \<mapsto>
              \<lparr>m_Container = length (store s), m_Size = m_Size q + 1,
               m_Capacity = m_Capacity q * 2\<rparr>)"
      and st: "store s' = (store s)[m_Container q := None] @
                        [Some (map Live (xs @ [v]) @ replicate (2 * cap - Suc cap) Raw)]"
      by blast
    have dbl: "unat (m_Capacity q * 2) = 2 * cap" using c small by (simp add: unat_double)
    have at: "queue_at this (xs @ [v]) (2 * cap) s'"
      using True pos sz1 dbl by (simp add: queue_at_def o st block_def nth_append)
    show ?thesis
      using True p at queue_at_Back [OF at] q
      by (simp add: Push_rvalue_same Size_def Capacity_def o st)
  next
    case False
    then have room: "length xs < cap" using le by simp
    from Push_room [OF assms(1) q room, of v]
    obtain s' where p: "Push this (Outside v) s = Normal s'"
      and o: "objects s' = (objects s)(this \<mapsto> q\<lparr>m_Size := m_Size q + 1\<rparr>)"
      and st: "store s' = (store s)[m_Container q :=
                        Some (map Live (xs @ [v]) @ replicate (cap - Suc (length xs)) Raw)]"
      by blast
    have at: "queue_at this (xs @ [v]) cap s'"
      using room pos sz1 c lt by (simp add: queue_at_def o st block_def)
    show ?thesis
      using False p at queue_at_Back [OF at] q
      by (simp add: Push_rvalue_same Size_def Capacity_def o st)
  qed
qed

section \<open>The claims\<close>

text \<open>
  C1, on the program \<open>Queue<int> q; q.Push(1); q.Push(q.Front()); q.Pop(); q.Pop();\<close>
  with \<open>q\<close> at address 0. After the first \<open>Push\<close> the queue is full and \<open>Front()\<close> is the
  reference to slot 0 of block 0, which holds 1. The second \<open>Push\<close> reallocates, which
  destroys that element and frees block 0, and only then copies from the reference: it
  has undefined behaviour, and the run has no fronts to show, where FIFO order asks for
  the fronts 1, 1. The same calls with the 1 handed over in an object of the caller
  return, and the fronts read are 1, 1.
\<close>

theorem Push_of_Front_is_not_FIFO:
  "(case Queue 0 no_queues of
      Normal s0 \<Rightarrow>
        (case Push 0 (Outside 1) s0 of
           Normal s1 \<Rightarrow>
             Front_ref 0 s1 = Some (Ref 0 0) \<and> Front 0 s1 = Some 1 \<and>
             Size 0 s1 = Some 1 \<and> Capacity 0 s1 = Some 1 \<and>
             undefined_behaviour (Push 0 (Ref 0 0) s1)
         | Throws e s1 \<Rightarrow> False
         | Undefined \<Rightarrow> False) \<and>
        map_option fst
          (drive 0 [CallPush (Outside 1), CallPush (Ref 0 0), CallPop, CallPop] s0) = None \<and>
        map_option fst
          (drive 0 [CallPush (Outside 1), CallPush (Outside 1), CallPop, CallPop] s0) =
            Some [1, 1]
    | Throws e s0 \<Rightarrow> False
    | Undefined \<Rightarrow> False)"
  by code_simp

text \<open>
  C2, on the program \<open>Queue<int> q; q.Push(1); q.Push(2); q.Push(3); Queue<int>
  p(std::move(q));\<close> with \<open>q\<close> at address 0 and \<open>p\<close> at address 1. The move constructor
  returns, but \<open>p.m_Container\<close> is the number 4, the capacity of \<open>q\<close>, which is no block:
  \<open>p\<close> does not hold the elements 1, 2, 3, its \<open>Front\<close> is no element, and \<open>Push\<close> and \<open>Pop\<close>
  on it have undefined behaviour. \<open>q\<close> has size 0 and capacity 1 but still points to its
  old block of four slots, whose three elements are alive: it is not in the state of a
  default-constructed queue, and the new one-slot block belongs to nobody.
\<close>

theorem Queue_move_takes_capacity_for_buffer:
  "(case Queue_move 1 0 three_pushed of
      Normal s \<Rightarrow>
        objects s 1 = Some \<lparr>m_Container = 4, m_Size = 3, m_Capacity = 4\<rparr> \<and>
        objects s 0 = Some \<lparr>m_Container = 2, m_Size = 0, m_Capacity = 1\<rparr> \<and>
        store s = [None, None, Some [Live 1, Live 2, Live 3, Raw], Some [Raw]] \<and>
        \<not> queue_at 1 [1, 2, 3] 4 s \<and> Front 1 s = None \<and>
        \<not> returns (Push 1 (Outside 9) s) \<and> \<not> returns (Pop 1 s) \<and>
        \<not> queue_at 0 [] 1 s \<and> Front 0 s = Some 1
    | Throws e s \<Rightarrow> False
    | Undefined \<Rightarrow> False)"
  by code_simp

text \<open>
  C3, on the same program continued by \<open>Queue<int> p; p.Push(7); p = std::move(q);\<close>
  instead of the move construction. Move assignment returns with \<open>p.m_Container\<close> the
  number 4, the capacity of \<open>q\<close>, so \<open>p\<close> does not hold 1, 2, 3 (in the model the number 4
  happens to be the one-slot block that was allocated for \<open>q\<close> and that \<open>q\<close> never receives);
  the block 3 that \<open>p\<close> owned is still allocated and its element 7 still alive, and no
  queue points to it; \<open>q\<close> keeps its old block with its three elements alive. Copy
  assignment in the same state frees block 3 and leaves \<open>p\<close> holding 1, 2, 3.
\<close>

theorem assign_move_keeps_old_buffer:
  "(case and_then (Push 1 (Outside 7) two_queues) (assign_move 1 0) of
      Normal s \<Rightarrow>
        objects s 1 = Some \<lparr>m_Container = 4, m_Size = 3, m_Capacity = 4\<rparr> \<and>
        objects s 0 = Some \<lparr>m_Container = 2, m_Size = 0, m_Capacity = 1\<rparr> \<and>
        store s = [None, None, Some [Live 1, Live 2, Live 3, Raw], Some [Live 7], Some [Raw]] \<and>
        \<not> queue_at 1 [1, 2, 3] 4 s \<and> Front 1 s = None \<and>
        \<not> returns (Push 1 (Outside 9) s) \<and> \<not> returns (Pop 1 s) \<and>
        \<not> queue_at 0 [] 1 s \<and> Front 0 s = Some 1
    | Throws e s \<Rightarrow> False
    | Undefined \<Rightarrow> False) \<and>
   (case and_then (Push 1 (Outside 7) two_queues) (assign_copy 1 0) of
      Normal s \<Rightarrow>
        store s = [None, None, Some [Live 1, Live 2, Live 3, Raw], None,
                   Some [Live 1, Live 2, Live 3, Raw]] \<and>
        queue_at 1 [1, 2, 3] 4 s \<and> queue_at 0 [1, 2, 3] 4 s
    | Throws e s \<Rightarrow> False
    | Undefined \<Rightarrow> False)"
  by code_simp

text \<open>
  C4: \<open>Reallocate(newCapacity)\<close> on a queue whose capacity is at least \<open>newCapacity\<close>
  throws \<open>std::invalid_argument\<close> and leaves the whole state as it was; with a larger
  \<open>newCapacity\<close> it throws nothing.
\<close>

theorem Reallocate_rejects_non_growth:
  assumes "objects s this = Some q"
  shows "(newCapacity \<le> m_Capacity q \<longrightarrow>
            Reallocate this newCapacity s = Throws invalid_argument s) \<and>
         (m_Capacity q < newCapacity \<longrightarrow>
            (\<forall>e t. Reallocate this newCapacity s \<noteq> Throws e t))"
proof (intro conjI impI allI)
  assume "newCapacity \<le> m_Capacity q"
  then show "Reallocate this newCapacity s = Throws invalid_argument s"
    using assms by (simp add: Reallocate_def)
next
  fix e t
  assume gt: "m_Capacity q < newCapacity"
  let ?s1 = "s\<lparr>store := store s @ [Some (replicate (unat newCapacity) Raw)]\<rparr>"
  let ?loop = "relocate_loop (length (store s)) (m_Container q) [0..<unat (m_Size q)] ?s1"
  have r: "Reallocate this newCapacity s =
             and_then ?loop
               (\<lambda>s2. and_then (operator_delete (m_Container q) (unat (m_Capacity q)) s2)
                 (\<lambda>s3. Normal
                    (update_object this (\<lambda>q. q\<lparr>m_Capacity := newCapacity\<rparr>)
                       (update_object this (\<lambda>q. q\<lparr>m_Container := length (store s)\<rparr>) s3))))"
  proof -
    have "\<not> newCapacity \<le> m_Capacity q" using gt by simp
    then show ?thesis using assms by (simp add: Reallocate_def operator_new_def)
  qed
  show "Reallocate this newCapacity s \<noteq> Throws e t"
  proof (rule store_only_cases [OF store_only_relocate_loop [of ?s1 "length (store s)" "m_Container q" "[0..<unat (m_Size q)]"]])
    assume "?loop = Undefined"
    then show ?thesis by (simp add: r and_then_def)
  next
    fix s2
    assume l: "?loop = Normal s2"
    show ?thesis
    proof (rule store_only_cases [OF store_only_operator_delete [of s2 "m_Container q" "unat (m_Capacity q)"]])
      assume "operator_delete (m_Container q) (unat (m_Capacity q)) s2 = Undefined"
      then show ?thesis using l by (simp add: r and_then_def)
    next
      fix s3
      assume "operator_delete (m_Container q) (unat (m_Capacity q)) s2 = Normal s3"
      then show ?thesis using l by (simp add: r and_then_def)
    qed
  qed
qed

theorem Reallocate_rejects_non_growth_witness:
  "objects three_pushed 0 = Some \<lparr>m_Container = 2, m_Size = 3, m_Capacity = 4\<rparr> \<and>
   Reallocate 0 4 three_pushed = Throws invalid_argument three_pushed \<and>
   Reallocate 0 3 three_pushed = Throws invalid_argument three_pushed \<and>
   (\<forall>e t. Reallocate 0 8 three_pushed \<noteq> Throws e t)"
proof -
  let ?q = "\<lparr>m_Container = 2, m_Size = 3, m_Capacity = 4\<rparr>"
  have h: "objects three_pushed 0 = Some ?q" by (simp add: three_pushed_def)
  have a: "(4 :: SizeType) \<le> m_Capacity ?q" and b: "(3 :: SizeType) \<le> m_Capacity ?q"
    and c: "m_Capacity ?q < (8 :: SizeType)"
    by simp_all
  show ?thesis
    using h a b c Reallocate_rejects_non_growth [OF h, of 4]
      Reallocate_rejects_non_growth [OF h, of 3] Reallocate_rejects_non_growth [OF h, of 8]
    by blast
qed

text \<open>
  C5: whenever a public operation ends, by returning or by throwing, every queue that
  satisfied \<open>m_Size <= m_Capacity\<close> before the call satisfies it after, and so does the
  queue that a constructor or an assignment has written, provided the source queue
  satisfied it before. \<open>Push\<close>, \<open>Pop\<close> and \<open>Clear\<close> end with a capacity that is not below
  any bound the capacity met before the call. \<open>Push\<close>, in both forms, is taken with any
  argument: an object of the caller or a reference into the free store.
\<close>

theorem capacity_ge_size_invariant:
  "(size_le_capacity r s \<or> r = this \<longrightarrow> on_exit (Queue this s) (size_le_capacity r)) \<and>
   (size_le_capacity other s \<and> (size_le_capacity r s \<or> r = this) \<longrightarrow>
      on_exit (Queue_copy this other s) (size_le_capacity r)) \<and>
   (size_le_capacity other s \<and> (size_le_capacity r s \<or> r = this) \<longrightarrow>
      on_exit (Queue_move this other s) (size_le_capacity r)) \<and>
   (size_le_capacity other s \<and> (size_le_capacity r s \<or> r = this) \<longrightarrow>
      on_exit (assign_copy this other s) (size_le_capacity r)) \<and>
   (size_le_capacity other s \<and> (size_le_capacity r s \<or> r = this) \<longrightarrow>
      on_exit (assign_move this other s) (size_le_capacity r)) \<and>
   (size_le_capacity r s \<longrightarrow> on_exit (Push this a s) (size_le_capacity r)) \<and>
   (size_le_capacity r s \<longrightarrow> on_exit (Push_rvalue this a s) (size_le_capacity r)) \<and>
   (size_le_capacity r s \<longrightarrow> on_exit (Pop this s) (size_le_capacity r)) \<and>
   (size_le_capacity r s \<longrightarrow> on_exit (Clear this s) (size_le_capacity r)) \<and>
   (capacity_at_least c this s \<longrightarrow> on_exit (Push this a s) (capacity_at_least c this)) \<and>
   (capacity_at_least c this s \<longrightarrow>
      on_exit (Push_rvalue this a s) (capacity_at_least c this)) \<and>
   (capacity_at_least c this s \<longrightarrow> on_exit (Pop this s) (capacity_at_least c this)) \<and>
   (capacity_at_least c this s \<longrightarrow> on_exit (Clear this s) (capacity_at_least c this))"
  by (intro conjI impI inv_Queue inv_Queue_copy inv_Queue_move inv_assign_copy
      inv_assign_move inv_Push inv_Push_rvalue inv_Pop inv_Clear capacity_Push
      capacity_Push_rvalue capacity_Pop capacity_Clear)
    simp_all

theorem capacity_ge_size_invariant_witness:
  "size_le_capacity 0 two_queues \<and> size_le_capacity 1 two_queues \<and>
   capacity_at_least 4 0 two_queues \<and>
   returns (Queue 2 two_queues) \<and> on_exit (Queue 2 two_queues) (size_le_capacity 2) \<and>
   returns (Queue_copy 2 0 two_queues) \<and>
   on_exit (Queue_copy 2 0 two_queues) (size_le_capacity 2) \<and>
   returns (Queue_move 2 0 two_queues) \<and>
   on_exit (Queue_move 2 0 two_queues) (size_le_capacity 2) \<and>
   on_exit (Queue_move 2 0 two_queues) (size_le_capacity 0) \<and>
   returns (assign_copy 1 0 two_queues) \<and>
   on_exit (assign_copy 1 0 two_queues) (size_le_capacity 1) \<and>
   returns (assign_move 1 0 two_queues) \<and>
   on_exit (assign_move 1 0 two_queues) (size_le_capacity 1) \<and>
   on_exit (assign_move 1 0 two_queues) (size_le_capacity 0) \<and>
   returns (Push 0 (Outside 7) two_queues) \<and> on_exit (Push 0 (Outside 7) two_queues) (size_le_capacity 0) \<and>
   returns (Push 1 (Outside 7) two_queues) \<and> on_exit (Push 1 (Outside 7) two_queues) (size_le_capacity 1) \<and>
   returns (Push_rvalue 0 (Outside 7) two_queues) \<and>
   on_exit (Push_rvalue 0 (Outside 7) two_queues) (size_le_capacity 0) \<and>
   returns (Pop 0 two_queues) \<and> on_exit (Pop 0 two_queues) (size_le_capacity 0) \<and>
   returns (Clear 0 two_queues) \<and> on_exit (Clear 0 two_queues) (size_le_capacity 0) \<and>
   on_exit (Push 0 (Outside 7) two_queues) (capacity_at_least 4 0) \<and>
   on_exit (Push_rvalue 0 (Outside 7) two_queues) (capacity_at_least 4 0) \<and>
   on_exit (Pop 0 two_queues) (capacity_at_least 4 0) \<and>
   on_exit (Clear 0 two_queues) (capacity_at_least 4 0)"
proof -
  have h0: "size_le_capacity 0 two_queues" and h1: "size_le_capacity 1 two_queues"
    and c0: "capacity_at_least 4 0 two_queues"
    by code_simp+
  have r: "returns (Queue 2 two_queues)" "returns (Queue_copy 2 0 two_queues)"
    "returns (Queue_move 2 0 two_queues)" "returns (assign_copy 1 0 two_queues)"
    "returns (assign_move 1 0 two_queues)" "returns (Push 0 (Outside 7) two_queues)"
    "returns (Push 1 (Outside 7) two_queues)" "returns (Push_rvalue 0 (Outside 7) two_queues)"
    "returns (Pop 0 two_queues)" "returns (Clear 0 two_queues)"
    by code_simp+
  note a = capacity_ge_size_invariant [of 2 two_queues 2 0 "Outside 7" 4]
  note b = capacity_ge_size_invariant [of 0 two_queues 2 0 "Outside 7" 4]
  note c = capacity_ge_size_invariant [of 1 two_queues 1 0 "Outside 7" 4]
  note d = capacity_ge_size_invariant [of 0 two_queues 1 0 "Outside 7" 4]
  note e = capacity_ge_size_invariant [of 0 two_queues 0 0 "Outside 7" 4]
  note f = capacity_ge_size_invariant [of 1 two_queues 1 0 "Outside 7" 4]
  show ?thesis
    using h0 h1 c0 r a b c d e f by simp
qed

text \<open>
  C6: copy construction from a well-formed queue returns normally; the new queue is
  well-formed with the source's elements in order, its size and its capacity, in a block
  of its own that did not exist before; the source object and every block that existed
  are as before. After that, take any sequence of calls of \<open>Push\<close> (either form, with an
  object of the caller or with any reference into the free store), \<open>Pop\<close> and \<open>Clear\<close> on
  the copy, in which the caller hands no element of the source to \<open>Push(ValueType&&)\<close> to
  be moved from: in whatever state the sequence ends, by returning or by an exception,
  the source holds its elements, size, capacity and buffer as before. The same holds
  with the two queues exchanged. A sequence that hands over no reference has no undefined
  behaviour.
\<close>

theorem copy_is_independent:
  assumes "queue_at other xs cap s" and "this \<noteq> other"
  shows "\<exists>s'. Queue_copy this other s = Normal s' \<and>
           queue_at this xs cap s' \<and> queue_at other xs cap s' \<and>
           Size this s' = Size other s \<and> Capacity this s' = Capacity other s \<and>
           objects s' other = objects s other \<and>
           take (length (store s)) (store s') = store s \<and>
           apart this other s' \<and>
           (\<forall>ms. list_all (\<lambda>m. \<not> moves_from_queue other s' m) ms \<longrightarrow>
              on_exit (mutate_all this ms s')
                (\<lambda>t. queue_at other xs cap t \<and> objects t other = objects s other)) \<and>
           (\<forall>ms. list_all (\<lambda>m. \<not> moves_from_queue this s' m) ms \<longrightarrow>
              on_exit (mutate_all other ms s')
                (\<lambda>t. queue_at this xs cap t \<and> objects t this = objects s' this)) \<and>
           (\<forall>ms. list_all by_value ms \<longrightarrow>
              mutate_all this ms s' \<noteq> Undefined \<and> mutate_all other ms s' \<noteq> Undefined)"
proof -
  from assms(1) obtain ot where ot: "objects s other = Some ot"
    and c: "unat (m_Capacity ot) = cap" and n: "unat (m_Size ot) = length xs"
    and pos: "0 < cap" and le: "length xs \<le> cap"
    and b: "block s (m_Container ot) = Some (map Live xs @ replicate (cap - length xs) Raw)"
    and lt: "m_Container ot < length (store s)"
    by (rule queue_at_object)
  let ?B = "map Live xs @ replicate (cap - length xs) Raw"
  let ?qt = "\<lparr>m_Container = length (store s), m_Size = m_Size ot, m_Capacity = m_Capacity ot\<rparr>"
  from Queue_copy_step [OF assms(1) ot assms(2)]
  obtain s' where cp: "Queue_copy this other s = Normal s'"
    and o: "objects s' = (objects s)(this \<mapsto> ?qt)"
    and st: "store s' = store s @ [Some ?B]"
    by blast
  have qt: "objects s' this = Some ?qt" by (simp add: o)
  have oo: "objects s' other = Some ot" using assms(2) ot by (simp add: o)
  have bn: "block s' (length (store s)) = Some ?B" by (simp add: block_def st)
  have bo: "block s' (m_Container ot) = Some ?B"
    using lt b by (simp add: block_def st nth_append)
  have new: "queue_at this xs cap s'"
    using c n pos le bn by (simp add: queue_at_def qt)
  have old: "queue_at other xs cap s'"
    using c n pos le bo by (simp add: queue_at_def oo)
  have ap: "apart this other s'"
    using assms(2) lt by (simp add: apart_def qt oo)
  have sz: "Size this s' = Size other s" and cc: "Capacity this s' = Capacity other s"
    using ot by (simp_all add: Size_def Capacity_def o)
  have u1: "untouched this other ot ?B s'"
    using bo lt by (simp add: untouched_def oo qt)
  have u2: "untouched other this ?qt ?B s'"
    using bn lt by (simp add: untouched_def oo qt)
  have at_other: "queue_at other xs cap t \<and> objects t other = objects s other"
    if "untouched this other ot ?B t" for t
    using that c n pos le ot by (simp add: untouched_def queue_at_def)
  have at_this: "queue_at this xs cap t \<and> objects t this = objects s' this"
    if "untouched other this ?qt ?B t" for t
    using that c n pos le qt by (simp add: untouched_def queue_at_def)
  have m1: "on_exit (mutate_all this ms s')
              (\<lambda>t. queue_at other xs cap t \<and> objects t other = objects s other)"
    if "list_all (\<lambda>m. \<not> moves_from_queue other s' m) ms" for ms
  proof -
    have "list_all (\<lambda>m. \<not> moves_from (m_Container ot) m) ms"
      using that by (simp add: moves_from_queue_def oo)
    from mutate_all_untouched [OF u1 assms(2) this] show ?thesis
      by (rule on_exit_mono) (rule at_other)
  qed
  have m2: "on_exit (mutate_all other ms s')
              (\<lambda>t. queue_at this xs cap t \<and> objects t this = objects s' this)"
    if "list_all (\<lambda>m. \<not> moves_from_queue this s' m) ms" for ms
  proof -
    have "list_all (\<lambda>m. \<not> moves_from (m_Container ?qt) m) ms"
      using that by (simp add: moves_from_queue_def qt)
    from mutate_all_untouched [OF u2 assms(2) [symmetric] this] show ?thesis
      by (rule on_exit_mono) (rule at_this)
  qed
  have m3: "mutate_all this ms s' \<noteq> Undefined \<and> mutate_all other ms s' \<noteq> Undefined"
    if "list_all by_value ms" for ms
    using mutate_all_by_value [OF new that] mutate_all_by_value [OF old that] by simp
  show ?thesis
    using cp new old sz cc ot oo ap m1 m2 m3 by (simp add: st)
qed

theorem copy_is_independent_witness:
  "queue_at 0 [1, 2, 3] 4 three_pushed \<and> (1 :: addr) \<noteq> 0 \<and>
   (\<exists>s'. Queue_copy 1 0 three_pushed = Normal s' \<and>
      queue_at 1 [1, 2, 3] 4 s' \<and> queue_at 0 [1, 2, 3] 4 s' \<and>
      (\<exists>t. mutate_all 1 [DoPop, DoPush (Ref 2 0), DoPush (Ref 3 0), DoPushMove (Outside 7)] s'
              = Normal t \<and>
         queue_at 0 [1, 2, 3] 4 t \<and> queue_at 1 [2, 3, 1, 2, 7] 8 t) \<and>
      (\<exists>t. mutate_all 0 [DoClear, DoPush (Outside 5)] s' = Normal t \<and>
         queue_at 1 [1, 2, 3] 4 t \<and> queue_at 0 [5] 4 t) \<and>
      on_exit (mutate_all 1 [DoPush (Ref 3 0), DoPush (Ref 3 0)] s')
        (\<lambda>t. queue_at 0 [1, 2, 3] 4 t) \<and>
      undefined_behaviour (mutate_all 1 [DoPush (Ref 3 0), DoPush (Ref 3 0)] s'))"
proof -
  let ?m1 = "[DoPop, DoPush (Ref 2 0), DoPush (Ref 3 0), DoPushMove (Outside (7 :: int))]"
  let ?m2 = "[DoClear, DoPush (Outside (5 :: int))]"
  let ?m3 = "[DoPush (Ref 3 0), DoPush (Ref 3 0) :: int mutation]"
  have h: "queue_at 0 [1, 2, 3] 4 three_pushed" by code_simp
  have d: "(1 :: addr) \<noteq> 0" by simp
  from copy_is_independent [OF h d]
  obtain s' where cp: "Queue_copy 1 0 three_pushed = Normal s'"
    and new: "queue_at 1 [1, 2, 3] 4 s'" and old: "queue_at 0 [1, 2, 3] 4 s'"
    and f1: "\<And>ms. list_all (\<lambda>m. \<not> moves_from_queue 0 s' m) ms \<Longrightarrow>
                on_exit (mutate_all 1 ms s') (\<lambda>t. queue_at 0 [1, 2, 3] 4 t)"
    and f2: "\<And>ms. list_all (\<lambda>m. \<not> moves_from_queue 1 s' m) ms \<Longrightarrow>
                on_exit (mutate_all 0 ms s') (\<lambda>t. queue_at 1 [1, 2, 3] 4 t)"
    by (auto simp: on_exit_def split: outcome.splits)
  have ev: "(case Queue_copy 1 0 three_pushed of
           Normal s' \<Rightarrow>
             list_all (\<lambda>m. \<not> moves_from_queue 0 s' m) ?m1 \<and>
             list_all (\<lambda>m. \<not> moves_from_queue 1 s' m) ?m2 \<and>
             list_all (\<lambda>m. \<not> moves_from_queue 0 s' m) ?m3 \<and>
             (case mutate_all 1 ?m1 s' of
                Normal t \<Rightarrow> queue_at 1 [2, 3, 1, 2, 7] 8 t
              | _ \<Rightarrow> False) \<and>
             (case mutate_all 0 ?m2 s' of
                Normal t \<Rightarrow> queue_at 0 [5] 4 t
              | _ \<Rightarrow> False) \<and>
             undefined_behaviour (mutate_all 1 ?m3 s')
         | _ \<Rightarrow> False)"
    by code_simp
  then obtain t1 t2 where r1: "mutate_all 1 ?m1 s' = Normal t1"
    and a1: "queue_at 1 [2, 3, 1, 2, 7] 8 t1"
    and r2: "mutate_all 0 ?m2 s' = Normal t2" and a2: "queue_at 0 [5] 4 t2"
    and ub: "undefined_behaviour (mutate_all 1 ?m3 s')"
    and l1: "list_all (\<lambda>m. \<not> moves_from_queue 0 s' m) ?m1"
    and l2: "list_all (\<lambda>m. \<not> moves_from_queue 1 s' m) ?m2"
    and l3: "list_all (\<lambda>m. \<not> moves_from_queue 0 s' m) ?m3"
    using cp by (auto split: outcome.splits)
  have k1: "queue_at 0 [1, 2, 3] 4 t1" using f1 [OF l1] r1 by (simp add: on_exit_def)
  have k2: "queue_at 1 [1, 2, 3] 4 t2" using f2 [OF l2] r2 by (simp add: on_exit_def)
  have k3: "on_exit (mutate_all 1 ?m3 s') (\<lambda>t. queue_at 0 [1, 2, 3] 4 t)" by (rule f1 [OF l3])
  show ?thesis using h d cp new old r1 a1 k1 r2 a2 k2 k3 ub by blast
qed

text \<open>
  C7: on an empty queue (\<open>m_Size == 0\<close>) both \<open>Pop\<close> and \<open>Clear\<close> return normally and
  leave the whole state, hence size, capacity and buffer, as it was.
\<close>

theorem Pop_Clear_on_empty:
  assumes "objects s this = Some q" and "m_Size q = 0"
  shows "Pop this s = Normal s \<and> Clear this s = Normal s"
proof
  show "Pop this s = Normal s" using assms by (simp add: Pop_def)
next
  have "q\<lparr>m_Size := 0\<rparr> = q" using assms(2) by (cases q) simp
  then have "update_object this (\<lambda>q. q\<lparr>m_Size := 0\<rparr>) s = s"
    using assms(1) by (simp add: update_object_same)
  then show "Clear this s = Normal s"
    using assms by (simp add: Clear_def and_then_def)
qed

theorem Pop_Clear_on_empty_witness:
  "(\<exists>s. Queue 0 no_queues = Normal s \<and>
      objects s 0 = Some \<lparr>m_Container = 0, m_Size = 0, m_Capacity = 1\<rparr> \<and>
      Pop 0 s = Normal s \<and> Clear 0 s = Normal s)"
proof -
  obtain s where s: "Queue 0 no_queues = Normal s"
    and o: "objects s 0 = Some \<lparr>m_Container = 0, m_Size = 0, m_Capacity = 1\<rparr>"
    by (simp add: Queue_def operator_new_def no_queues_def INITIAL_CAPACITY_def)
  have z: "m_Size \<lparr>m_Container = 0, m_Size = 0, m_Capacity = 1\<rparr> = 0" by simp
  from Pop_Clear_on_empty [OF o z] s o show ?thesis by blast
qed

text \<open>
  C8, on the program \<open>Queue<int> q; q.Push(1); q.Push(q.Front());\<close> with \<open>q\<close> at
  address 0, and on the same with \<open>std::move(q.Front())\<close>. The queue is full (size 1,
  capacity 1) and \<open>Front()\<close>, like \<open>Back()\<close>, is the reference to slot 0 of block 0. Either form of \<open>Push\<close>
  first reallocates, which destroys the element and frees block 0, and then constructs the
  new element from the reference: undefined behaviour, where the claim asks for a queue
  holding 1, 1 with the pushed value at the back. With the 1 handed over in an object of
  the caller the call returns with that queue, and \<open>q.Push(q.Front())\<close> on the queue of
  three elements and capacity 4, which does not grow, returns with 1, 2, 3, 1.
\<close>

theorem Push_of_own_element_when_full:
  "Front_ref 0 one_pushed = Some (Ref 0 0) \<and> Back_ref 0 one_pushed = Some (Ref 0 0) \<and>
   Front 0 one_pushed = Some 1 \<and>
   Size 0 one_pushed = Some 1 \<and> Capacity 0 one_pushed = Some 1 \<and>
   undefined_behaviour (Push 0 (Ref 0 0) one_pushed) \<and>
   undefined_behaviour (Push_rvalue 0 (Ref 0 0) one_pushed) \<and>
   (case Push 0 (Outside 1) one_pushed of
      Normal s \<Rightarrow> queue_at 0 [1, 1] 2 s \<and> Back 0 s = Some 1
    | Throws e s \<Rightarrow> False
    | Undefined \<Rightarrow> False) \<and>
   Front_ref 0 three_pushed = Some (Ref 2 0) \<and>
   (case Push 0 (Ref 2 0) three_pushed of
      Normal s \<Rightarrow> queue_at 0 [1, 2, 3, 1] 4 s \<and> Back 0 s = Some 1
    | Throws e s \<Rightarrow> False
    | Undefined \<Rightarrow> False)"
  by code_simp

text \<open>
  C9: \<open>Clear\<close> on a well-formed queue returns normally with every slot of the buffer
  raw storage and the size 0; the capacity, the buffer's address and the blocks of the
  free store are those from before the call. The queue of three elements is the example.
\<close>

theorem Clear_keeps_capacity:
  assumes "queue_at this xs cap s"
  shows "\<exists>s'. Clear this s = Normal s' \<and> queue_at this [] cap s' \<and>
           Size this s' = Some 0 \<and> Empty this s' = Some True \<and>
           Capacity this s' = Capacity this s \<and>
           map_option m_Container (objects s' this) = map_option m_Container (objects s this) \<and>
           length (store s') = length (store s)"
proof -
  from assms obtain q where q: "objects s this = Some q"
    by (auto simp: queue_at_def split: option.splits)
  have c: "unat (m_Capacity q) = cap" and pos: "0 < cap"
    and b: "block s (m_Container q) = Some (map Live xs @ replicate (cap - length xs) Raw)"
    using assms q by (simp_all add: queue_at_def)
  have lt: "m_Container q < length (store s)" using b by (rule block_Some_less)
  from Clear_queue_at [OF assms q]
  obtain s' where cl: "Clear this s = Normal s'"
    and o: "objects s' = (objects s)(this \<mapsto> q\<lparr>m_Size := 0\<rparr>)"
    and st: "store s' = (store s)[m_Container q := Some (replicate cap Raw)]"
    by blast
  have "queue_at this [] cap s'"
    using c pos lt by (simp add: queue_at_def o st block_def)
  then show ?thesis
    using cl q by (simp add: Size_def Empty_def Capacity_def o st)
qed

theorem Clear_keeps_capacity_witness:
  "queue_at 0 [1, 2, 3] 4 three_pushed \<and>
   (\<exists>s'. Clear 0 three_pushed = Normal s' \<and> queue_at 0 [] 4 s' \<and>
      Size 0 s' = Some 0 \<and> Capacity 0 three_pushed = Some 4 \<and> Capacity 0 s' = Some 4)"
proof -
  have h: "queue_at 0 [1, 2, 3] 4 three_pushed" by code_simp
  have c: "Capacity 0 three_pushed = Some 4" by (simp add: Capacity_def three_pushed_def)
  from Clear_keeps_capacity [OF h] c h show ?thesis by auto
qed

text \<open>
  C10: assigning a queue to itself, by copy or by move, returns at the first statement:
  the whole state, hence the queue's buffer, size, capacity and elements, is as before.
\<close>

theorem self_assignment_is_no_op:
  "assign_copy this this s = Normal s \<and> assign_move this this s = Normal s"
  by (simp add: assign_copy_def assign_move_def)

theorem self_assignment_is_no_op_witness:
  "assign_copy 0 0 three_pushed = Normal three_pushed \<and>
   assign_move 0 0 three_pushed = Normal three_pushed"
  using self_assignment_is_no_op [of 0 three_pushed] by simp

end
